theory Spec2Isabelle
  imports Main "HOL-Library.Sublist"
begin

section \<open>License header rewriter: the two scripts\<close>

text \<open>
  The repository holds two scripts. \<^verbatim>\<open>scripts/update-license-headers.py\<close> (function
  \<^verbatim>\<open>update_file\<close>) rewrites headers with two regular expressions and \<^verbatim>\<open>re.sub\<close>;
  \<^verbatim>\<open>scripts/update_license_headers.py\<close> (function \<^verbatim>\<open>process_file\<close>) works with an
  exact substring test and \<^verbatim>\<open>str.replace\<close>. Both are embedded below.

  A Python \<^verbatim>\<open>str\<close> is a sequence of code points; file content is modelled as a
  \<^typ>\<open>string\<close>, one \<^typ>\<open>char\<close> per code point (so the model covers the code points
  below 256, and \<^const>\<open>length\<close>, \<^const>\<open>take\<close> count code points as Python does).
\<close>

subsection \<open>String operations of Python used by the scripts\<close>

text \<open>\<^verbatim>\<open>sub in s\<close>: the substring test.\<close>

fun str_in :: "string \<Rightarrow> string \<Rightarrow> bool" where
  "str_in sub [] = (sub = [])"
| "str_in sub (c # cs) = (prefix sub (c # cs) \<or> str_in sub cs)"

text \<open>\<^verbatim>\<open>s.replace(old, new, 1)\<close> for a non-empty \<^verbatim>\<open>old\<close>: the leftmost occurrence is
  replaced, everything else is kept.\<close>

fun replace_first :: "string \<Rightarrow> string \<Rightarrow> string \<Rightarrow> string" where
  "replace_first old new [] = []"
| "replace_first old new (c # cs) =
     (if prefix old (c # cs) then new @ drop (length old) (c # cs)
      else c # replace_first old new cs)"

text \<open>\<^verbatim>\<open>s.split('\n', 1)\<close>: the text before the first newline and, when there is a
  newline, the text after it (\<^verbatim>\<open>lines[1] if len(lines) > 1 else ''\<close> reads the second
  component, the empty string when there is none).\<close>

definition split_first_line :: "string \<Rightarrow> string \<times> string option" where
  "split_first_line s =
     (let l0 = takeWhile (\<lambda>c. c \<noteq> CHR ''\<newline>'') s; r = dropWhile (\<lambda>c. c \<noteq> CHR ''\<newline>'') s
      in (l0, case r of [] \<Rightarrow> None | _ # t \<Rightarrow> Some t))"

subsection \<open>The regular expressions and their backtracking matcher\<close>

text \<open>
  The two patterns of \<^verbatim>\<open>update-license-headers.py\<close> use only literal characters, the
  class \<^verbatim>\<open>[Cc]\<close>, \<^verbatim>\<open>\s\<close>, the dot (with \<^verbatim>\<open>re.DOTALL\<close>: any character, newline
  included), and the quantifiers \<^verbatim>\<open>?\<close>, \<^verbatim>\<open>*\<close> (greedy) and \<^verbatim>\<open>*?\<close> (lazy) applied
  to a single character class. \<^verbatim>\<open>re.MULTILINE\<close> has no effect: neither pattern has an
  anchor.
\<close>

datatype atom = Lit char | Cls "char list" | Space | Any

text \<open>\<^verbatim>\<open>\s\<close> on \<^verbatim>\<open>str\<close>: the Unicode whitespace characters, here those below 256.\<close>

definition isspace :: "char \<Rightarrow> bool" where
  "isspace c \<longleftrightarrow> c \<in> set [CHR 0x09, CHR 0x0A, CHR 0x0B, CHR 0x0C, CHR 0x0D,
                          CHR 0x1C, CHR 0x1D, CHR 0x1E, CHR 0x1F, CHR 0x20, CHR 0x85, CHR 0xA0]"

fun ok :: "atom \<Rightarrow> char \<Rightarrow> bool" where
  "ok (Lit c) x = (x = c)"
| "ok (Cls cs) x = (x \<in> set cs)"
| "ok Space x = isspace x"
| "ok Any x = True"

datatype item = One atom | Opt atom | Star atom | Lazy atom

type_synonym regex = "item list"

text \<open>
  \<open>match_at p s\<close> is \<^verbatim>\<open>p.match\<close> at the start of \<open>s\<close>: the text left after the first
  match the backtracking search finds, trying more repetitions first for a greedy
  quantifier and fewer first for a lazy one; \<open>None\<close> when there is no match.
\<close>

fun match_at :: "regex \<Rightarrow> string \<Rightarrow> string option" where
  "match_at [] s = Some s"
| "match_at (One a # p) [] = None"
| "match_at (One a # p) (c # cs) = (if ok a c then match_at p cs else None)"
| "match_at (Opt a # p) [] = match_at p []"
| "match_at (Opt a # p) (c # cs) =
     (if ok a c then (case match_at p cs of Some r \<Rightarrow> Some r | None \<Rightarrow> match_at p (c # cs))
      else match_at p (c # cs))"
| "match_at (Star a # p) [] = match_at p []"
| "match_at (Star a # p) (c # cs) =
     (if ok a c
      then (case match_at (Star a # p) cs of Some r \<Rightarrow> Some r | None \<Rightarrow> match_at p (c # cs))
      else match_at p (c # cs))"
| "match_at (Lazy a # p) [] = match_at p []"
| "match_at (Lazy a # p) (c # cs) =
     (case match_at p (c # cs) of Some r \<Rightarrow> Some r
      | None \<Rightarrow> if ok a c then match_at (Lazy a # p) cs else None)"

text \<open>\<^verbatim>\<open>p.search(s)\<close>, read as a truth value: is there a match starting anywhere?\<close>

fun search :: "regex \<Rightarrow> string \<Rightarrow> bool" where
  "search p [] = (match_at p [] \<noteq> None)"
| "search p (c # cs) = (match_at p (c # cs) \<noteq> None \<or> search p cs)"

text \<open>
  \<^verbatim>\<open>p.sub(repl, s)\<close> for a replacement without backslashes: scanning from the left,
  every match is replaced and the scan goes on after it. Both patterns begin with the
  literal \<^verbatim>\<open>/*\<close>, so a match is never empty; the guard on the lengths (an empty match is
  stepped over) is there for the definition to terminate on every pattern.
\<close>

fun sub :: "regex \<Rightarrow> string \<Rightarrow> string \<Rightarrow> string" where
  "sub p repl [] = []"
| "sub p repl (c # cs) =
     (case match_at p (c # cs) of
        Some r \<Rightarrow> if length r < length (c # cs) then repl @ sub p repl r
                  else c # sub p repl cs
      | None \<Rightarrow> c # sub p repl cs)"

definition lits :: "string \<Rightarrow> regex" where
  "lits w = map (\<lambda>c. One (Lit c)) w"

subsection \<open>Configuration of \<^verbatim>\<open>update-license-headers.py\<close>\<close>

definition NEW_HEADER :: string where
  "NEW_HEADER =
     ''/**\<newline>'' @
     '' * Copyright (c) 2019-2025 Mark Sandford\<newline>'' @
     '' * Licensed under the MIT License. See LICENSE and NOTICE files.\<newline>'' @
     '' */''"

text \<open>\<^verbatim>\<open>/\*\s*\n\s*\*\s*CIV\.IQ.*?\n.*?GNU Affero General Public License.*?\*/\s*\n\<close>\<close>

definition AGPL_PATTERN :: regex where
  "AGPL_PATTERN =
     lits ''/*'' @ [Star Space, One (Lit CHR ''\<newline>''), Star Space, One (Lit CHR ''*''), Star Space] @
     lits ''CIV.IQ'' @ [Lazy Any, One (Lit CHR ''\<newline>''), Lazy Any] @
     lits ''GNU Affero General Public License'' @ [Lazy Any] @
     lits ''*/'' @ [Star Space, One (Lit CHR ''\<newline>'')]"

text \<open>\<^verbatim>\<open>/\*\*?\s*\n.*?[Cc]opyright.*?\*/\s*\n\<close>\<close>

definition COPYRIGHT_PATTERN :: regex where
  "COPYRIGHT_PATTERN =
     lits ''/*'' @ [Opt (Lit CHR ''*''), Star Space, One (Lit CHR ''\<newline>''), Lazy Any, One (Cls ''Cc'')] @
     lits ''opyright'' @ [Lazy Any] @
     lits ''*/'' @ [Star Space, One (Lit CHR ''\<newline>'')]"

text \<open>The marker \<^verbatim>\<open>'use client'\<close>, with its two apostrophes.\<close>

definition use_client :: string where
  "use_client = CHR 0x27 # ''use client'' @ [CHR 0x27]"

subsection \<open>Configuration of \<^verbatim>\<open>update_license_headers.py\<close>\<close>

text \<open>Two lines of the old header end in blanks, as in the source.\<close>

definition OLD_MIT_HEADER :: string where
  "OLD_MIT_HEADER =
     ''/**\<newline>'' @
     '' * CIV.IQ - Civic Information  \<newline>'' @
     '' * Copyright (c) 2025 CIV.IQ \<newline>'' @
     '' * Licensed under MIT License\<newline>'' @
     '' * Built with public government data\<newline>'' @
     '' */''"

definition NEW_AGPL_HEADER :: string where
  "NEW_AGPL_HEADER =
     ''/*\<newline>'' @
     '' * CIV.IQ - Civic Information Hub\<newline>'' @
     '' * Copyright (C) 2025 Mark Sandford\<newline>'' @
     '' * \<newline>'' @
     '' * This program is free software: you can redistribute it and/or modify\<newline>'' @
     '' * it under the terms of the GNU Affero General Public License as published by\<newline>'' @
     '' * the Free Software Foundation, either version 3 of the License, or\<newline>'' @
     '' * (at your option) any later version.\<newline>'' @
     '' *\<newline>'' @
     '' * This program is distributed in the hope that it will be useful,\<newline>'' @
     '' * but WITHOUT ANY WARRANTY; without even the implied warranty of\<newline>'' @
     '' * MERCHANTABILITY or FITNESS FOR A PARTICULAR PURPOSE. See the\<newline>'' @
     '' * GNU Affero General Public License for more details.\<newline>'' @
     '' *\<newline>'' @
     '' * You should have received a copy of the GNU Affero General Public License\<newline>'' @
     '' * along with this program. If not, see <https://www.gnu.org/licenses/>.\<newline>'' @
     '' *\<newline>'' @
     '' * For commercial licensing inquiries: mark@marksandford.dev\<newline>'' @
     '' */''"

subsection \<open>The content transformations\<close>

text \<open>The body of \<^verbatim>\<open>update_file\<close> between reading and comparing.\<close>

definition update_content :: "string \<Rightarrow> string" where
  "update_content content =
     (if search AGPL_PATTERN content
      then sub AGPL_PATTERN (NEW_HEADER @ ''\<newline>\<newline>'') content
      else if search COPYRIGHT_PATTERN content
      then sub COPYRIGHT_PATTERN (NEW_HEADER @ ''\<newline>\<newline>'') content
      else if prefix use_client content
      then (case split_first_line content of
              (l0, r) \<Rightarrow> l0 @ ''\<newline>\<newline>'' @ NEW_HEADER @ ''\<newline>\<newline>'' @
                         (case r of Some t \<Rightarrow> t | None \<Rightarrow> []))
      else NEW_HEADER @ ''\<newline>\<newline>'' @ content)"

datatype outcome = Replaced | Added | Skipped | Error

text \<open>The test \<^verbatim>\<open>'Copyright' not in content[:1000] and 'copyright' not in content[:1000]\<close>.\<close>

definition no_copyright :: "string \<Rightarrow> bool" where
  "no_copyright content \<longleftrightarrow>
     \<not> str_in ''Copyright'' (take 1000 content) \<and> \<not> str_in ''copyright'' (take 1000 content)"

text \<open>The branch \<^verbatim>\<open>process_file\<close> takes on a content, and the content it then holds
  (\<^verbatim>\<open>new_content\<close> in the first two branches, the content itself in the third).\<close>

definition process_outcome :: "string \<Rightarrow> outcome" where
  "process_outcome content =
     (if str_in OLD_MIT_HEADER content then Replaced
      else if no_copyright content then Added
      else Skipped)"

definition process_content :: "string \<Rightarrow> string" where
  "process_content content =
     (if str_in OLD_MIT_HEADER content
      then replace_first OLD_MIT_HEADER NEW_AGPL_HEADER content
      else if no_copyright content
      then NEW_AGPL_HEADER @ ''\<newline>\<newline>'' @ content
      else content)"

subsection \<open>Files and the per-file operations\<close>

text \<open>
  A file system maps a path to a node. The content of a node is its text as
  \<^verbatim>\<open>f.read()\<close> returns it, or \<open>None\<close> when reading raises (the bytes are not UTF-8,
  the file cannot be opened). A path without a node makes reading raise as well.

  Writing can fail in two ways. A node that is not writable makes \<^verbatim>\<open>open(path, 'w')\<close>
  raise, and the file stays as it was. Once the file is open it has been truncated; a
  node with \<open>fault = Some k\<close> makes \<^verbatim>\<open>f.write\<close> (or the flush when the file is closed)
  raise after \<open>k\<close> characters have reached the file, which then holds that part of the
  text only (nothing, for \<open>k = 0\<close>).
\<close>

type_synonym path = string

record node =
  content :: "string option"
  writable :: bool
  fault :: "nat option"

type_synonym fs = "path \<rightharpoonup> node"

datatype io_error = ReadError | WriteError

definition read_text :: "fs \<Rightarrow> path \<Rightarrow> io_error + string" where
  "read_text f p =
     (case f p of None \<Rightarrow> Inl ReadError
      | Some n \<Rightarrow> (case content n of None \<Rightarrow> Inl ReadError | Some t \<Rightarrow> Inr t))"

text \<open>\<open>write_text f p t\<close> gives the error raised, if any, and the file system afterwards.\<close>

definition write_text :: "fs \<Rightarrow> path \<Rightarrow> string \<Rightarrow> io_error option \<times> fs" where
  "write_text f p t =
     (case f p of
        None \<Rightarrow> (None, f(p \<mapsto> \<lparr>content = Some t, writable = True, fault = None\<rparr>))
      | Some n \<Rightarrow>
          if \<not> writable n then (Some WriteError, f)
          else (case fault n of
                  None \<Rightarrow> (None, f(p \<mapsto> n\<lparr>content := Some t\<rparr>))
                | Some k \<Rightarrow> (Some WriteError, f(p \<mapsto> n\<lparr>content := Some (take k t)\<rparr>))))"

text \<open>
  What a per-file operation does besides returning: \<open>Write p t\<close> records that the
  statement writing \<open>t\<close> to \<open>p\<close> was reached (whether or not it then raised), and
  \<open>Print_error p\<close> the message of the \<^verbatim>\<open>except\<close> clause, which names the path.
\<close>

datatype event = Write path string | Print_error path

definition update_file :: "fs \<Rightarrow> path \<Rightarrow> bool \<times> fs \<times> event list" where
  "update_file f filepath =
     (case read_text f filepath of
        Inl e \<Rightarrow> (False, f, [Print_error filepath])
      | Inr original \<Rightarrow>
          (let new = update_content original in
           if new \<noteq> original
           then (case write_text f filepath new of
                   (Some e, f') \<Rightarrow> (False, f', [Write filepath new, Print_error filepath])
                 | (None, f') \<Rightarrow> (True, f', [Write filepath new]))
           else (False, f, [])))"

definition process_file :: "fs \<Rightarrow> path \<Rightarrow> outcome \<times> fs \<times> event list" where
  "process_file f file_path =
     (case read_text f file_path of
        Inl e \<Rightarrow> (Error, f, [Print_error file_path])
      | Inr c \<Rightarrow>
          if str_in OLD_MIT_HEADER c
          then (let new_content = replace_first OLD_MIT_HEADER NEW_AGPL_HEADER c in
                case write_text f file_path new_content of
                  (Some e, f') \<Rightarrow> (Error, f', [Write file_path new_content, Print_error file_path])
                | (None, f') \<Rightarrow> (Replaced, f', [Write file_path new_content]))
          else if no_copyright c
          then (let new_content = NEW_AGPL_HEADER @ ''\<newline>\<newline>'' @ c in
                case write_text f file_path new_content of
                  (Some e, f') \<Rightarrow> (Error, f', [Write file_path new_content, Print_error file_path])
                | (None, f') \<Rightarrow> (Added, f', [Write file_path new_content]))
          else (Skipped, f, []))"

subsection \<open>The runs\<close>

text \<open>
  Both \<^verbatim>\<open>main\<close> functions walk a list of paths; the directory traversal that produces
  the list (\<^verbatim>\<open>rglob\<close>) is taken as given. The result of a run holds the exit status of
  the process, the counters, the file system and the events, in order.
\<close>

record update_summary =
  total_count :: nat
  updated_count :: nat

record 'a run =
  exit_status :: nat
  summary :: 'a
  files :: fs
  events :: "event list"

text \<open>\<^verbatim>\<open>any(part in str(filepath) for part in ['node_modules', '.next', 'dist', 'build'])\<close>\<close>

definition excluded :: "path \<Rightarrow> bool" where
  "excluded filepath \<longleftrightarrow>
     (\<exists>part \<in> set [''node_modules'', ''.next'', ''dist'', ''build'']. str_in part filepath)"

fun update_loop :: "path list \<Rightarrow> update_summary \<times> fs \<times> event list \<Rightarrow> update_summary \<times> fs \<times> event list" where
  "update_loop [] st = st"
| "update_loop (filepath # rest) (s, f, es) =
     (if excluded filepath then update_loop rest (s, f, es)
      else (case update_file f filepath of
              (updated, f', es') \<Rightarrow>
                update_loop rest
                  (s\<lparr>total_count := total_count s + 1,
                     updated_count := (if updated then updated_count s + 1 else updated_count s)\<rparr>,
                   f', es @ es')))"

text \<open>\<^verbatim>\<open>main\<close> of \<^verbatim>\<open>update-license-headers.py\<close>: it returns normally, so the status is 0.\<close>

definition update_main :: "fs \<Rightarrow> path list \<Rightarrow> update_summary run" where
  "update_main f paths =
     (case update_loop paths (\<lparr>total_count = 0, updated_count = 0\<rparr>, f, []) of
        (s, f', es) \<Rightarrow> \<lparr>exit_status = 0, summary = s, files = f', events = es\<rparr>)"

record process_summary =
  replaced :: nat
  added :: nat
  skipped :: nat
  errors :: nat

fun process_loop :: "path list \<Rightarrow> process_summary \<times> fs \<times> event list \<Rightarrow> process_summary \<times> fs \<times> event list" where
  "process_loop [] st = st"
| "process_loop (file_path # rest) (s, f, es) =
     (case process_file f file_path of
        (result, f', es') \<Rightarrow>
          process_loop rest
            ((case result of
                Replaced \<Rightarrow> s\<lparr>replaced := replaced s + 1\<rparr>
              | Added \<Rightarrow> s\<lparr>added := added s + 1\<rparr>
              | Skipped \<Rightarrow> s\<lparr>skipped := skipped s + 1\<rparr>
              | Error \<Rightarrow> s\<lparr>errors := errors s + 1\<rparr>),
             f', es @ es'))"

text \<open>\<^verbatim>\<open>main\<close> of \<^verbatim>\<open>update_license_headers.py\<close>: \<^verbatim>\<open>sys.exit(1)\<close> when \<^verbatim>\<open>errors > 0\<close>.\<close>

definition process_main :: "fs \<Rightarrow> path list \<Rightarrow> process_summary run" where
  "process_main f paths =
     (case process_loop paths (\<lparr>replaced = 0, added = 0, skipped = 0, errors = 0\<rparr>, f, []) of
        (s, f', es) \<Rightarrow>
          \<lparr>exit_status = (if errors s > 0 then 1 else 0), summary = s, files = f', events = es\<rparr>)"

text \<open>The writes among the events of an operation: path and text, in order.\<close>

definition writes :: "event list \<Rightarrow> (path \<times> string) list" where
  "writes es = concat (map (\<lambda>e. case e of Write p t \<Rightarrow> [(p, t)] | Print_error p \<Rightarrow> []) es)"

text \<open>The paths named by the error messages among the events, in order.\<close>

definition error_paths :: "event list \<Rightarrow> path list" where
  "error_paths es = concat (map (\<lambda>e. case e of Write p t \<Rightarrow> [] | Print_error p \<Rightarrow> [p]) es)"

text \<open>
  A file fails under an operation when reading it raises, or when its content would
  change and writing raises.
\<close>

definition fails_update :: "fs \<Rightarrow> path \<Rightarrow> bool" where
  "fails_update f p \<longleftrightarrow>
     (case read_text f p of Inl e \<Rightarrow> True
      | Inr c \<Rightarrow> update_content c \<noteq> c \<and> fst (write_text f p (update_content c)) \<noteq> None)"

definition fails_process :: "fs \<Rightarrow> path \<Rightarrow> bool" where
  "fails_process f p \<longleftrightarrow>
     (case read_text f p of Inl e \<Rightarrow> True
      | Inr c \<Rightarrow> process_content c \<noteq> c \<and> fst (write_text f p (process_content c)) \<noteq> None)"

text \<open>
  Two tails of \<^const>\<open>COPYRIGHT_PATTERN\<close>, named for the proofs: \<^verbatim>\<open>\*/\s*\n\<close> and
  \<^verbatim>\<open>[Cc]opyright.*?\*/\s*\n\<close>.
\<close>

definition close_tail :: regex where
  "close_tail = lits ''*/'' @ [Star Space, One (Lit CHR ''\<newline>'')]"

definition token_tail :: regex where
  "token_tail = One (Cls ''Cc'') # lits ''opyright'' @ Lazy Any # close_tail"

section \<open>Properties\<close>

subsection \<open>Substrings and replacement\<close>

lemma str_in_sublist: "str_in w s = sublist w s"
  by (induction s) (auto simp: sublist_Cons_right)

lemma str_in_iff: "str_in w s \<longleftrightarrow> (\<exists>p r. s = p @ w @ r)"
  by (simp add: str_in_sublist sublist_def)

lemma str_in_appendI: "str_in w (p @ w @ r)"
  by (auto simp: str_in_iff)

lemma length_replace_first:
  "old \<noteq> [] \<Longrightarrow> str_in old s \<Longrightarrow> length (replace_first old new s) + length old = length s + length new"
proof (induction s)
  case Nil
  then show ?case by simp
next
  case (Cons c cs)
  show ?case
  proof (cases "prefix old (c # cs)")
    case True
    then have "length old \<le> length (c # cs)" by (rule prefix_length_le)
    with True show ?thesis by simp
  next
    case False
    with Cons show ?thesis by simp
  qed
qed

lemma length_headers:
  "length OLD_MIT_HEADER = 136" "length NEW_AGPL_HEADER = 810" "length NEW_HEADER = 113"
  by (simp_all add: OLD_MIT_HEADER_def NEW_AGPL_HEADER_def NEW_HEADER_def)

lemma OLD_MIT_HEADER_not_Nil: "OLD_MIT_HEADER \<noteq> []"
  by (simp add: OLD_MIT_HEADER_def)

lemma replace_first_changes:
  assumes "str_in OLD_MIT_HEADER c"
  shows "replace_first OLD_MIT_HEADER NEW_AGPL_HEADER c \<noteq> c"
proof
  assume "replace_first OLD_MIT_HEADER NEW_AGPL_HEADER c = c"
  then show False
    using length_replace_first [OF OLD_MIT_HEADER_not_Nil assms, of NEW_AGPL_HEADER]
    by (simp add: length_headers)
qed

lemma process_content_fixed: "process_content c = c \<longleftrightarrow> process_outcome c = Skipped"
  by (auto simp: process_content_def process_outcome_def replace_first_changes)

subsection \<open>Writing only on change\<close>

lemma write_text_ok:
  assumes "fst (write_text f p t) = None"
  shows "read_text (snd (write_text f p t)) p = Inr t"
    and "q \<noteq> p \<Longrightarrow> snd (write_text f p t) q = f q"
  using assms
  by (auto simp: write_text_def read_text_def split: option.splits if_splits)

lemma update_file_written:
  assumes "read_text f p = Inr c" and "update_content c \<noteq> c"
  shows "fst (update_file f p) = (fst (write_text f p (update_content c)) = None)"
    and "fst (snd (update_file f p)) = snd (write_text f p (update_content c))"
  using assms by (simp_all add: update_file_def Let_def split: prod.splits option.splits)

lemma process_file_written:
  assumes "read_text f p = Inr c" and "process_content c \<noteq> c"
  shows "(fst (process_file f p) \<noteq> Error) = (fst (write_text f p (process_content c)) = None)"
    and "fst (snd (process_file f p)) = snd (write_text f p (process_content c))"
  using assms
  by (auto simp: process_file_def process_content_def Let_def split: prod.splits option.splits)

text \<open>
  Claim C2. Once a file has been read, each per-file operation reaches its write
  statement if and only if the transformed content differs from the content read, and
  what it writes is the transformed content. When the two are equal the file system is
  left as it was. When they differ and the write does not raise, the file holds the
  transformed content afterwards and no other file has changed. \<^verbatim>\<open>update_file\<close>
  compares the two texts; \<^verbatim>\<open>process_file\<close> writes in its first two branches, where the
  new content is always longer than the old one.
\<close>

theorem write_only_on_change:
  assumes "read_text f p = Inr c"
  shows "writes (snd (snd (update_file f p)))
           = (if update_content c \<noteq> c then [(p, update_content c)] else [])
       \<and> (update_content c = c \<longrightarrow> fst (snd (update_file f p)) = f)
       \<and> (update_content c \<noteq> c \<and> fst (write_text f p (update_content c)) = None \<longrightarrow>
            fst (update_file f p)
            \<and> read_text (fst (snd (update_file f p))) p = Inr (update_content c)
            \<and> (\<forall>q. q \<noteq> p \<longrightarrow> fst (snd (update_file f p)) q = f q))
       \<and> writes (snd (snd (process_file f p)))
           = (if process_content c \<noteq> c then [(p, process_content c)] else [])
       \<and> (process_content c = c \<longrightarrow> fst (snd (process_file f p)) = f)
       \<and> (process_content c \<noteq> c \<and> fst (write_text f p (process_content c)) = None \<longrightarrow>
            fst (process_file f p) = process_outcome c
            \<and> read_text (fst (snd (process_file f p))) p = Inr (process_content c)
            \<and> (\<forall>q. q \<noteq> p \<longrightarrow> fst (snd (process_file f p)) q = f q))"
proof -
  have u: "writes (snd (snd (update_file f p)))
             = (if update_content c \<noteq> c then [(p, update_content c)] else [])"
    using assms
    by (simp add: update_file_def writes_def Let_def split: prod.splits option.splits)
  have u': "update_content c = c \<longrightarrow> fst (snd (update_file f p)) = f"
    using assms by (simp add: update_file_def)
  have u'': "update_content c \<noteq> c \<and> fst (write_text f p (update_content c)) = None \<longrightarrow>
            fst (update_file f p)
            \<and> read_text (fst (snd (update_file f p))) p = Inr (update_content c)
            \<and> (\<forall>q. q \<noteq> p \<longrightarrow> fst (snd (update_file f p)) q = f q)"
    using update_file_written [OF assms] write_text_ok [of f p "update_content c"]
    by simp
  have p: "writes (snd (snd (process_file f p)))
             = (if process_content c \<noteq> c then [(p, process_content c)] else [])"
    using assms replace_first_changes [of c]
    by (simp add: process_file_def process_content_def writes_def Let_def
        split: prod.splits option.splits)
  have p': "process_content c = c \<longrightarrow> fst (snd (process_file f p)) = f"
    using assms replace_first_changes [of c]
    by (simp add: process_file_def process_content_def Let_def split: prod.splits option.splits)
  have o: "fst (write_text f p (process_content c)) = None \<longrightarrow> process_content c \<noteq> c
             \<longrightarrow> fst (process_file f p) = process_outcome c"
    using assms
    by (auto simp: process_file_def process_content_def process_outcome_def Let_def
        split: prod.splits option.splits)
  have p'': "process_content c \<noteq> c \<and> fst (write_text f p (process_content c)) = None \<longrightarrow>
            fst (process_file f p) = process_outcome c
            \<and> read_text (fst (snd (process_file f p))) p = Inr (process_content c)
            \<and> (\<forall>q. q \<noteq> p \<longrightarrow> fst (snd (process_file f p)) q = f q)"
    using process_file_written [OF assms] write_text_ok [of f p "process_content c"] o
    by simp
  from u u' u'' p p' p'' show ?thesis by blast
qed

theorem write_only_on_change_witness:
  "read_text [''a.ts'' \<mapsto> \<lparr>content = Some ''x'', writable = True, fault = None\<rparr>] ''a.ts'' = Inr ''x''
   \<and> fst (write_text [''a.ts'' \<mapsto> \<lparr>content = Some ''x'', writable = True, fault = None\<rparr>] ''a.ts''
            (NEW_HEADER @ ''\<newline>\<newline>x'')) = None
   \<and> fst (write_text [''a.ts'' \<mapsto> \<lparr>content = Some ''x'', writable = True, fault = None\<rparr>] ''a.ts''
            (NEW_AGPL_HEADER @ ''\<newline>\<newline>x'')) = None
   \<and> writes (snd (snd (update_file [''a.ts'' \<mapsto> \<lparr>content = Some ''x'', writable = True, fault = None\<rparr>] ''a.ts'')))
       = [(''a.ts'', NEW_HEADER @ ''\<newline>\<newline>x'')]
   \<and> read_text (fst (snd (update_file [''a.ts'' \<mapsto> \<lparr>content = Some ''x'', writable = True, fault = None\<rparr>] ''a.ts''))) ''a.ts''
       = Inr (NEW_HEADER @ ''\<newline>\<newline>x'')
   \<and> writes (snd (snd (process_file [''a.ts'' \<mapsto> \<lparr>content = Some ''x'', writable = True, fault = None\<rparr>] ''a.ts'')))
       = [(''a.ts'', NEW_AGPL_HEADER @ ''\<newline>\<newline>x'')]
   \<and> read_text (fst (snd (process_file [''a.ts'' \<mapsto> \<lparr>content = Some ''x'', writable = True, fault = None\<rparr>] ''a.ts''))) ''a.ts''
       = Inr (NEW_AGPL_HEADER @ ''\<newline>\<newline>x'')"
proof -
  let ?f = "[''a.ts'' \<mapsto> \<lparr>content = Some ''x'', writable = True, fault = None\<rparr>]"
  have h: "read_text ?f ''a.ts'' = Inr ''x''"
    by (simp add: read_text_def)
  have u: "update_content ''x'' = NEW_HEADER @ ''\<newline>\<newline>x''"
    by (simp add: update_content_def AGPL_PATTERN_def COPYRIGHT_PATTERN_def lits_def use_client_def)
  have p: "process_content ''x'' = NEW_AGPL_HEADER @ ''\<newline>\<newline>x''"
    by (simp add: process_content_def OLD_MIT_HEADER_def no_copyright_def)
  have w: "fst (write_text ?f ''a.ts'' t) = None" for t
    by (simp add: write_text_def)
  have n: "NEW_HEADER @ ''\<newline>\<newline>x'' \<noteq> ''x''" "NEW_AGPL_HEADER @ ''\<newline>\<newline>x'' \<noteq> ''x''"
    by (simp_all add: NEW_HEADER_def NEW_AGPL_HEADER_def)
  show ?thesis
    using write_only_on_change [OF h] h w n by (simp add: u p)
qed

subsection \<open>No header: the replacement header is put in front\<close>

text \<open>
  Claim C9. For a content with no recognised header and no leading marker the output
  is the replacement header, one blank line, and the original content unchanged. In
  \<^verbatim>\<open>update_file\<close> this is the content on which neither pattern matches and which does
  not start with \<^verbatim>\<open>'use client'\<close>; in \<^verbatim>\<open>process_file\<close> it is the content without
  the old header and without a copyright word in its first 1000 characters (a marker
  plays no role there).
\<close>

theorem verbatim_prepend:
  "(\<not> search AGPL_PATTERN c \<and> \<not> search COPYRIGHT_PATTERN c \<and> \<not> prefix use_client c
      \<longrightarrow> update_content c = NEW_HEADER @ ''\<newline>\<newline>'' @ c)
   \<and> (\<not> str_in OLD_MIT_HEADER c \<and> no_copyright c
      \<longrightarrow> process_outcome c = Added \<and> process_content c = NEW_AGPL_HEADER @ ''\<newline>\<newline>'' @ c)"
  by (simp add: update_content_def process_content_def process_outcome_def)

theorem verbatim_prepend_witness:
  "\<not> search AGPL_PATTERN ''const x = 1;\<newline>'' \<and> \<not> search COPYRIGHT_PATTERN ''const x = 1;\<newline>''
   \<and> \<not> prefix use_client ''const x = 1;\<newline>''
   \<and> update_content ''const x = 1;\<newline>'' = NEW_HEADER @ ''\<newline>\<newline>'' @ ''const x = 1;\<newline>''
   \<and> \<not> str_in OLD_MIT_HEADER ''const x = 1;\<newline>'' \<and> no_copyright ''const x = 1;\<newline>''
   \<and> process_outcome ''const x = 1;\<newline>'' = Added
   \<and> process_content ''const x = 1;\<newline>'' = NEW_AGPL_HEADER @ ''\<newline>\<newline>'' @ ''const x = 1;\<newline>''"
proof -
  have u: "\<not> search AGPL_PATTERN ''const x = 1;\<newline>'' \<and> \<not> search COPYRIGHT_PATTERN ''const x = 1;\<newline>''
           \<and> \<not> prefix use_client ''const x = 1;\<newline>''"
    by (simp add: AGPL_PATTERN_def COPYRIGHT_PATTERN_def lits_def use_client_def)
  have p: "\<not> str_in OLD_MIT_HEADER ''const x = 1;\<newline>'' \<and> no_copyright ''const x = 1;\<newline>''"
    by (simp add: OLD_MIT_HEADER_def no_copyright_def)
  from u p verbatim_prepend [of "''const x = 1;\<newline>''"] show ?thesis
    by blast
qed

subsection \<open>A copyright word without the old header: the file is skipped\<close>

text \<open>
  Claim C7. In \<^verbatim>\<open>process_file\<close>, a content that does not hold the old header but has
  \<^verbatim>\<open>Copyright\<close> or \<^verbatim>\<open>copyright\<close> in its first 1000 characters is reported as skipped;
  nothing is written and the file system stays as it was. (This script has the exact
  matcher only; its sole other test is the one for the copyright word.)
\<close>

theorem ambiguous_skip:
  assumes "read_text f p = Inr c" and "\<not> str_in OLD_MIT_HEADER c" and "\<not> no_copyright c"
  shows "process_file f p = (Skipped, f, []) \<and> process_outcome c = Skipped \<and> process_content c = c"
  using assms by (simp add: process_file_def process_outcome_def process_content_def)

theorem ambiguous_skip_witness:
  "read_text [''a.ts'' \<mapsto> \<lparr>content = Some ''// Copyright me'', writable = True, fault = None\<rparr>] ''a.ts''
     = Inr ''// Copyright me''
   \<and> \<not> str_in OLD_MIT_HEADER ''// Copyright me'' \<and> \<not> no_copyright ''// Copyright me''
   \<and> process_file [''a.ts'' \<mapsto> \<lparr>content = Some ''// Copyright me'', writable = True, fault = None\<rparr>] ''a.ts''
     = (Skipped, [''a.ts'' \<mapsto> \<lparr>content = Some ''// Copyright me'', writable = True, fault = None\<rparr>], [])"
proof -
  have r: "read_text [''a.ts'' \<mapsto> \<lparr>content = Some ''// Copyright me'', writable = True, fault = None\<rparr>] ''a.ts''
             = Inr ''// Copyright me''"
    by (simp add: read_text_def)
  have a: "\<not> str_in OLD_MIT_HEADER ''// Copyright me''"
    by (simp add: OLD_MIT_HEADER_def)
  have b: "\<not> no_copyright ''// Copyright me''"
    by (simp add: no_copyright_def)
  from r a b ambiguous_skip [OF r a b] show ?thesis
    by blast
qed

subsection \<open>Errors of single files and the runs\<close>

lemma error_paths_append [simp]: "error_paths (xs @ ys) = error_paths xs @ error_paths ys"
  by (simp add: error_paths_def)

lemma error_paths_simps [simp]:
  "error_paths [] = []"
  "error_paths (Write p t # es) = error_paths es"
  "error_paths (Print_error p # es) = p # error_paths es"
  by (simp_all add: error_paths_def)

lemma process_file_fails:
  "fails_process f p \<Longrightarrow> fst (process_file f p) = Error
     \<and> error_paths (snd (snd (process_file f p))) = [p]"
  using replace_first_changes [of "projr (read_text f p)"]
  by (auto simp: fails_process_def process_file_def process_content_def Let_def
      split: sum.splits if_splits prod.splits option.splits)

lemma process_file_ok:
  "\<not> fails_process f p \<Longrightarrow> fst (process_file f p) \<noteq> Error
     \<and> error_paths (snd (snd (process_file f p))) = []"
  using replace_first_changes [of "projr (read_text f p)"]
  by (auto simp: fails_process_def process_file_def process_content_def Let_def
      split: sum.splits if_splits prod.splits option.splits)

lemma update_file_fails:
  "fails_update f p \<Longrightarrow> fst (update_file f p) = False
     \<and> error_paths (snd (snd (update_file f p))) = [p]"
  by (auto simp: fails_update_def update_file_def Let_def
      split: sum.splits if_splits prod.splits option.splits)

lemma update_file_ok:
  "\<not> fails_update f p \<Longrightarrow> error_paths (snd (snd (update_file f p))) = []"
  by (auto simp: fails_update_def update_file_def Let_def
      split: sum.splits if_splits prod.splits option.splits)

text \<open>
  Whether a file fails depends on its own node only, and an operation on one file
  leaves the nodes of all other files as they were.
\<close>

lemma write_text_other: "q \<noteq> p \<Longrightarrow> snd (write_text f q t) p = f p"
  by (auto simp: write_text_def split: option.splits if_splits)

lemma fails_process_node:
  "fails_process f p =
     (case f p of None \<Rightarrow> True
      | Some n \<Rightarrow> (case content n of None \<Rightarrow> True
                  | Some c \<Rightarrow> process_content c \<noteq> c \<and> (\<not> writable n \<or> fault n \<noteq> None)))"
  by (auto simp: fails_process_def read_text_def write_text_def split: option.splits)

lemma fails_update_node:
  "fails_update f p =
     (case f p of None \<Rightarrow> True
      | Some n \<Rightarrow> (case content n of None \<Rightarrow> True
                  | Some c \<Rightarrow> update_content c \<noteq> c \<and> (\<not> writable n \<or> fault n \<noteq> None)))"
  by (auto simp: fails_update_def read_text_def write_text_def split: option.splits)

lemma fails_process_cong: "f' p = f p \<Longrightarrow> fails_process f' p = fails_process f p"
  by (simp add: fails_process_node)

lemma fails_update_cong: "f' p = f p \<Longrightarrow> fails_update f' p = fails_update f p"
  by (simp add: fails_update_node)

lemma process_file_fs:
  "fst (snd (process_file f q)) = f \<or> (\<exists>t. fst (snd (process_file f q)) = snd (write_text f q t))"
proof (cases "read_text f q")
  case (Inl e)
  then show ?thesis by (simp add: process_file_def)
next
  case (Inr c)
  show ?thesis
  proof (cases "process_content c = c")
    case True
    with Inr show ?thesis
      using replace_first_changes [of c]
      by (auto simp: process_file_def process_content_def Let_def split: if_splits)
  next
    case False
    with process_file_written(2) [OF Inr] show ?thesis by blast
  qed
qed

lemma update_file_fs:
  "fst (snd (update_file f q)) = f \<or> (\<exists>t. fst (snd (update_file f q)) = snd (write_text f q t))"
proof (cases "read_text f q")
  case (Inl e)
  then show ?thesis by (simp add: update_file_def)
next
  case (Inr c)
  show ?thesis
  proof (cases "update_content c = c")
    case True
    with Inr show ?thesis by (simp add: update_file_def)
  next
    case False
    with update_file_written(2) [OF Inr] show ?thesis by blast
  qed
qed

lemma process_file_frame: "q \<noteq> p \<Longrightarrow> fst (snd (process_file f q)) p = f p"
  using process_file_fs [of f q] write_text_other [of q p f] by auto

lemma update_file_frame: "q \<noteq> p \<Longrightarrow> fst (snd (update_file f q)) p = f p"
  using update_file_fs [of f q] write_text_other [of q p f] by auto

lemma process_loop_errors:
  "process_loop ps (s, f, es) = (s', f', es') \<Longrightarrow>
     errors s' + length (error_paths es) = errors s + length (error_paths es')"
proof (induction ps arbitrary: s f es)
  case Nil
  then show ?case by simp
next
  case (Cons p ps)
  obtain r f1 es1 where pf: "process_file f p = (r, f1, es1)" by (metis prod_cases3)
  show ?case
  proof (cases "fails_process f p")
    case True
    with process_file_fails [of f p] pf have "r = Error" "error_paths es1 = [p]" by auto
    with Cons.IH [of "s\<lparr>errors := errors s + 1\<rparr>" f1 "es @ es1"] Cons.prems pf show ?thesis by simp
  next
    case False
    with process_file_ok [of f p] pf have r: "r \<noteq> Error" "error_paths es1 = []" by auto
    then show ?thesis
      using Cons.IH [of _ f1 "es @ es1"] Cons.prems pf by (cases r) auto
  qed
qed

lemma process_loop_total:
  "process_loop ps (s, f, es) = (s', f', es') \<Longrightarrow>
     replaced s' + added s' + skipped s' + errors s'
       = replaced s + added s + skipped s + errors s + length ps"
proof (induction ps arbitrary: s f es)
  case Nil
  then show ?case by simp
next
  case (Cons p ps)
  obtain r f1 es1 where pf: "process_file f p = (r, f1, es1)" by (metis prod_cases3)
  show ?case
    using Cons.IH [of _ f1 "es @ es1"] Cons.prems pf by (cases r) auto
qed

lemma process_loop_events_mono:
  "process_loop ps (s, f, es) = (s', f', es') \<Longrightarrow> set (error_paths es) \<subseteq> set (error_paths es')"
proof (induction ps arbitrary: s f es)
  case Nil
  then show ?case by simp
next
  case (Cons p ps)
  obtain r f1 es1 where pf: "process_file f p = (r, f1, es1)" by (metis prod_cases3)
  from Cons.prems pf obtain s1 where "process_loop ps (s1, f1, es @ es1) = (s', f', es')" by simp
  from Cons.IH [OF this] show ?case by simp
qed

lemma process_loop_logs:
  "process_loop ps (s, f, es) = (s', f', es') \<Longrightarrow> p \<in> set ps \<Longrightarrow> fails_process f p
     \<Longrightarrow> p \<in> set (error_paths es')"
proof (induction ps arbitrary: s f es)
  case Nil
  then show ?case by simp
next
  case (Cons q ps)
  obtain r f1 es1 where pf: "process_file f q = (r, f1, es1)" by (metis prod_cases3)
  from Cons.prems(1) pf obtain s1 where loop: "process_loop ps (s1, f1, es @ es1) = (s', f', es')"
    by simp
  show ?case
  proof (cases "q = p")
    case True
    with process_file_fails [OF Cons.prems(3)] pf have "error_paths es1 = [p]" by simp
    with process_loop_events_mono [OF loop] show ?thesis by auto
  next
    case False
    with Cons.prems(2) have "p \<in> set ps" by simp
    moreover from process_file_frame [OF False, of f] pf have "f1 p = f p" by simp
    then have "fails_process f1 p" using Cons.prems(3) fails_process_cong [of f1 p f] by blast
    ultimately show ?thesis using Cons.IH [OF loop] by blast
  qed
qed

lemma update_loop_total:
  "update_loop ps (s, f, es) = (s', f', es') \<Longrightarrow>
     total_count s' = total_count s + length (filter (\<lambda>p. \<not> excluded p) ps)"
proof (induction ps arbitrary: s f es)
  case Nil
  then show ?case by simp
next
  case (Cons p ps)
  obtain r f1 es1 where pf: "update_file f p = (r, f1, es1)" by (metis prod_cases3)
  show ?case
    using Cons.IH [of _ f1 "es @ es1"] Cons.IH [of s f es] Cons.prems pf by (auto split: if_splits)
qed

lemma update_loop_events_mono:
  "update_loop ps (s, f, es) = (s', f', es') \<Longrightarrow> set (error_paths es) \<subseteq> set (error_paths es')"
proof (induction ps arbitrary: s f es)
  case Nil
  then show ?case by simp
next
  case (Cons p ps)
  obtain r f1 es1 where pf: "update_file f p = (r, f1, es1)" by (metis prod_cases3)
  show ?case
  proof (cases "excluded p")
    case True
    with Cons show ?thesis by simp
  next
    case False
    with Cons.prems pf obtain s1 where "update_loop ps (s1, f1, es @ es1) = (s', f', es')" by simp
    from Cons.IH [OF this] show ?thesis by simp
  qed
qed

lemma update_loop_logs:
  "update_loop ps (s, f, es) = (s', f', es') \<Longrightarrow> p \<in> set ps \<Longrightarrow> \<not> excluded p \<Longrightarrow> fails_update f p
     \<Longrightarrow> p \<in> set (error_paths es')"
proof (induction ps arbitrary: s f es)
  case Nil
  then show ?case by simp
next
  case (Cons q ps)
  obtain r f1 es1 where pf: "update_file f q = (r, f1, es1)" by (metis prod_cases3)
  show ?case
  proof (cases "excluded q")
    case True
    with Cons.prems have "update_loop ps (s, f, es) = (s', f', es')" "p \<in> set ps" by auto
    from Cons.IH [OF this Cons.prems(3,4)] show ?thesis .
  next
    case ex: False
    with Cons.prems(1) pf obtain s1 where loop: "update_loop ps (s1, f1, es @ es1) = (s', f', es')"
      by simp
    show ?thesis
    proof (cases "q = p")
      case True
      with update_file_fails [OF Cons.prems(4)] pf have "error_paths es1 = [p]" by simp
      with update_loop_events_mono [OF loop] show ?thesis by auto
    next
      case False
      with Cons.prems(2) have "p \<in> set ps" by simp
      moreover from update_file_frame [OF False, of f] pf have "f1 p = f p" by simp
      then have "fails_update f1 p" using Cons.prems(4) fails_update_cong [of f1 p f] by blast
      ultimately show ?thesis using Cons.IH [OF loop _ Cons.prems(3)] by blast
    qed
  qed
qed


text \<open>
  Claim C5, as amended. \<^verbatim>\<open>update_license_headers.py\<close> ends with status 1 when at
  least one per-file error was reported and with status 0 otherwise, and its counter
  \<^verbatim>\<open>errors\<close> is the number of reported errors. \<^verbatim>\<open>update-license-headers.py\<close> keeps
  no error count: its \<^verbatim>\<open>main\<close> always ends with status 0.
\<close>

theorem exit_status_by_errors:
  "exit_status (process_main f ps) = (if error_paths (events (process_main f ps)) = [] then 0 else 1)
   \<and> errors (summary (process_main f ps)) = length (error_paths (events (process_main f ps)))
   \<and> exit_status (update_main f ps) = 0"
proof -
  obtain s' f' es' where l: "process_loop ps (\<lparr>replaced = 0, added = 0, skipped = 0, errors = 0\<rparr>, f, []) = (s', f', es')"
    by (metis prod_cases3)
  from process_loop_errors [OF l] have "errors s' = length (error_paths es')" by simp
  with l show ?thesis
    by (simp add: process_main_def update_main_def split: prod.splits)
qed


theorem exit_status_by_errors_witness:
  "exit_status (process_main [''a.ts'' \<mapsto> \<lparr>content = None, writable = True, fault = None\<rparr>] [''a.ts'']) = 1
   \<and> errors (summary (process_main [''a.ts'' \<mapsto> \<lparr>content = None, writable = True, fault = None\<rparr>] [''a.ts''])) = 1
   \<and> exit_status (update_main [''a.ts'' \<mapsto> \<lparr>content = None, writable = True, fault = None\<rparr>] [''a.ts'']) = 0"
proof -
  have ev: "events (process_main [''a.ts'' \<mapsto> \<lparr>content = None, writable = True, fault = None\<rparr>] [''a.ts''])
              = [Print_error ''a.ts'']"
    by (simp add: process_main_def process_file_def read_text_def)
  from exit_status_by_errors [of "[''a.ts'' \<mapsto> \<lparr>content = None, writable = True, fault = None\<rparr>]" "[''a.ts'']"]
  show ?thesis by (simp add: ev)
qed

text \<open>
  The claim as stated fails for \<^verbatim>\<open>update-license-headers.py\<close>: a run over one file
  that cannot be read reports the error and still ends with status 0.
\<close>

theorem exit_status_counterexample:
  "read_text [''a.ts'' \<mapsto> \<lparr>content = None, writable = True, fault = None\<rparr>] ''a.ts'' = Inl ReadError
   \<and> events (update_main [''a.ts'' \<mapsto> \<lparr>content = None, writable = True, fault = None\<rparr>] [''a.ts''])
       = [Print_error ''a.ts'']
   \<and> exit_status (update_main [''a.ts'' \<mapsto> \<lparr>content = None, writable = True, fault = None\<rparr>] [''a.ts'']) = 0"
  by (simp add: update_main_def update_file_def read_text_def excluded_def)

text \<open>
  Claim C6, as amended. A file whose reading raises, or whose writing raises, is
  handled inside the per-file operation: the operation returns its failure value and
  the message names the path. The run goes on: every failing file of the list is
  reported whatever was processed before it, and the counters cover the whole list. \<^verbatim>\<open>update_license_headers.py\<close> counts every reported
  failure in \<^verbatim>\<open>errors\<close>; \<^verbatim>\<open>update-license-headers.py\<close> has no such counter, its summary
  holds the number of files looked at and the number of files updated only.
\<close>

theorem failure_isolation:
  "(fails_process f p \<longrightarrow>
       fst (process_file f p) = Error
       \<and> error_paths (snd (snd (process_file f p))) = [p])
   \<and> (p \<in> set ps \<and> fails_process f p \<longrightarrow> p \<in> set (error_paths (events (process_main f ps))))
   \<and> errors (summary (process_main f ps)) = length (error_paths (events (process_main f ps)))
   \<and> replaced (summary (process_main f ps)) + added (summary (process_main f ps))
       + skipped (summary (process_main f ps)) + errors (summary (process_main f ps)) = length ps
   \<and> (fails_update f p \<longrightarrow>
       fst (update_file f p) = False
       \<and> error_paths (snd (snd (update_file f p))) = [p])
   \<and> (p \<in> set ps \<and> \<not> excluded p \<and> fails_update f p
        \<longrightarrow> p \<in> set (error_paths (events (update_main f ps))))
   \<and> total_count (summary (update_main f ps)) = length (filter (\<lambda>p. \<not> excluded p) ps)"
proof -
  obtain s' f' es' where l: "process_loop ps (\<lparr>replaced = 0, added = 0, skipped = 0, errors = 0\<rparr>, f, []) = (s', f', es')"
    by (metis prod_cases3)
  obtain t' g' ds' where u: "update_loop ps (\<lparr>total_count = 0, updated_count = 0\<rparr>, f, []) = (t', g', ds')"
    by (metis prod_cases3)
  have pm: "summary (process_main f ps) = s'" "events (process_main f ps) = es'"
    using l by (simp_all add: process_main_def)
  have um: "summary (update_main f ps) = t'" "events (update_main f ps) = ds'"
    using u by (simp_all add: update_main_def)
  have 1: "fails_process f p \<longrightarrow>
       fst (process_file f p) = Error
       \<and> error_paths (snd (snd (process_file f p))) = [p]"
    using process_file_fails [of f p] by blast
  have 2: "p \<in> set ps \<and> fails_process f p \<longrightarrow> p \<in> set (error_paths es')"
    using process_loop_logs [OF l] by blast
  have 3: "errors s' = length (error_paths es')"
    using process_loop_errors [OF l] by simp
  have 4: "replaced s' + added s' + skipped s' + errors s' = length ps"
    using process_loop_total [OF l] by simp
  have 5: "fails_update f p \<longrightarrow>
       fst (update_file f p) = False
       \<and> error_paths (snd (snd (update_file f p))) = [p]"
    using update_file_fails [of f p] by blast
  have 6: "p \<in> set ps \<and> \<not> excluded p \<and> fails_update f p \<longrightarrow> p \<in> set (error_paths ds')"
    using update_loop_logs [OF u] by blast
  have 7: "total_count t' = length (filter (\<lambda>p. \<not> excluded p) ps)"
    using update_loop_total [OF u] by simp
  from 1 2 3 4 5 6 7 show ?thesis
    unfolding pm um by blast
qed


theorem failure_isolation_witness:
  "fails_process
       [''a.ts'' \<mapsto> \<lparr>content = Some ''x'', writable = True, fault = Some 0\<rparr>,
          ''b.ts'' \<mapsto> \<lparr>content = None, writable = True, fault = None\<rparr>] ''a.ts''
   \<and> fails_update
       [''a.ts'' \<mapsto> \<lparr>content = Some ''x'', writable = True, fault = Some 0\<rparr>,
          ''b.ts'' \<mapsto> \<lparr>content = None, writable = True, fault = None\<rparr>] ''a.ts''
   \<and> \<not> excluded ''a.ts''
   \<and> fst (process_file
       [''a.ts'' \<mapsto> \<lparr>content = Some ''x'', writable = True, fault = Some 0\<rparr>,
          ''b.ts'' \<mapsto> \<lparr>content = None, writable = True, fault = None\<rparr>] ''a.ts'') = Error
   \<and> error_paths (snd (snd (process_file
       [''a.ts'' \<mapsto> \<lparr>content = Some ''x'', writable = True, fault = Some 0\<rparr>,
          ''b.ts'' \<mapsto> \<lparr>content = None, writable = True, fault = None\<rparr>] ''a.ts''))) = [''a.ts'']
   \<and> fst (update_file
       [''a.ts'' \<mapsto> \<lparr>content = Some ''x'', writable = True, fault = Some 0\<rparr>,
          ''b.ts'' \<mapsto> \<lparr>content = None, writable = True, fault = None\<rparr>] ''a.ts'') = False
   \<and> ''a.ts'' \<in> set (error_paths (events (process_main
       [''a.ts'' \<mapsto> \<lparr>content = Some ''x'', writable = True, fault = Some 0\<rparr>,
          ''b.ts'' \<mapsto> \<lparr>content = None, writable = True, fault = None\<rparr>] [''b.ts'', ''a.ts''])))
   \<and> errors (summary (process_main
       [''a.ts'' \<mapsto> \<lparr>content = Some ''x'', writable = True, fault = Some 0\<rparr>,
          ''b.ts'' \<mapsto> \<lparr>content = None, writable = True, fault = None\<rparr>] [''b.ts'', ''a.ts''])) = 2
   \<and> ''a.ts'' \<in> set (error_paths (events (update_main
       [''a.ts'' \<mapsto> \<lparr>content = Some ''x'', writable = True, fault = Some 0\<rparr>,
          ''b.ts'' \<mapsto> \<lparr>content = None, writable = True, fault = None\<rparr>] [''b.ts'', ''a.ts''])))
   \<and> total_count (summary (update_main
       [''a.ts'' \<mapsto> \<lparr>content = Some ''x'', writable = True, fault = Some 0\<rparr>,
          ''b.ts'' \<mapsto> \<lparr>content = None, writable = True, fault = None\<rparr>] [''b.ts'', ''a.ts''])) = 2"
proof -
  let ?f = "[''a.ts'' \<mapsto> \<lparr>content = Some ''x'', writable = True, fault = Some 0\<rparr>,
          ''b.ts'' \<mapsto> \<lparr>content = None, writable = True, fault = None\<rparr>]"
  have x: "process_content ''x'' \<noteq> ''x''" "update_content ''x'' \<noteq> ''x''"
    by (simp_all add: process_content_def OLD_MIT_HEADER_def no_copyright_def NEW_AGPL_HEADER_def
        update_content_def AGPL_PATTERN_def COPYRIGHT_PATTERN_def lits_def use_client_def
        NEW_HEADER_def)
  have a: "fails_process ?f ''a.ts''"
    using x by (simp add: fails_process_node)
  have b: "fails_update ?f ''a.ts''"
    using x by (simp add: fails_update_node)
  have c: "\<not> excluded ''a.ts''" "\<not> excluded ''b.ts''"
    by (simp_all add: excluded_def)
  have e: "error_paths (events (process_main ?f [''b.ts'', ''a.ts''])) = [''b.ts'', ''a.ts'']"
    using x
    by (simp add: process_main_def process_file_def read_text_def write_text_def
        process_content_def OLD_MIT_HEADER_def no_copyright_def)
  from a b c failure_isolation [of ?f "''a.ts''" "[''b.ts'', ''a.ts'']"]
  show ?thesis by (simp add: e)
qed

text \<open>
  The claim as stated fails for \<^verbatim>\<open>update-license-headers.py\<close>: the summary of a run
  over a file that cannot be read is the summary of a run over a file that needs no
  change; the failure is reported but not counted.
\<close>

theorem failure_isolation_counterexample:
  "fails_update [''a.ts'' \<mapsto> \<lparr>content = None, writable = True, fault = None\<rparr>] ''a.ts''
   \<and> events (update_main [''a.ts'' \<mapsto> \<lparr>content = None, writable = True, fault = None\<rparr>] [''a.ts''])
       = [Print_error ''a.ts'']
   \<and> summary (update_main [''a.ts'' \<mapsto> \<lparr>content = None, writable = True, fault = None\<rparr>] [''a.ts''])
       = \<lparr>total_count = 1, updated_count = 0\<rparr>
   \<and> \<not> fails_update [''a.ts'' \<mapsto> \<lparr>content = Some (NEW_HEADER @ ''\<newline>\<newline>''), writable = True, fault = None\<rparr>] ''a.ts''
   \<and> summary (update_main [''a.ts'' \<mapsto> \<lparr>content = Some (NEW_HEADER @ ''\<newline>\<newline>''), writable = True, fault = None\<rparr>] [''a.ts''])
       = \<lparr>total_count = 1, updated_count = 0\<rparr>"
proof -
  have u: "update_content (NEW_HEADER @ ''\<newline>\<newline>'') = NEW_HEADER @ ''\<newline>\<newline>''"
    by (simp add: update_content_def NEW_HEADER_def AGPL_PATTERN_def COPYRIGHT_PATTERN_def lits_def isspace_def)
  have e: "\<not> excluded ''a.ts''"
    by (simp add: excluded_def)
  show ?thesis
    by (simp add: fails_update_def update_main_def update_file_def read_text_def u e)
qed

subsection \<open>Facts about the matcher, the search and the substitution\<close>

lemma match_at_suffix: "match_at p s = Some r \<Longrightarrow> suffix r s"
  by (induction p s arbitrary: r rule: match_at.induct)
     (auto split: if_splits option.splits intro: suffix_ConsI)

lemma match_at_length: "match_at p s = Some r \<Longrightarrow> length r \<le> length s"
  by (auto dest: match_at_suffix suffix_length_le)

lemma match_at_One_shorter: "match_at (One a # p) s = Some r \<Longrightarrow> length r < length s"
  by (cases s) (auto split: if_splits dest: match_at_length)

lemma match_at_One_fail: "\<not> ok a c \<Longrightarrow> match_at (One a # p) (c # cs) = None"
  by simp

lemma search_appendI: "search p s \<Longrightarrow> search p (pre @ s)"
  by (induction pre) auto

lemma search_match: "match_at p s \<noteq> None \<Longrightarrow> search p s"
  by (cases s) auto

lemma search_skip:
  "\<forall>x \<in> set pre. \<not> ok a x \<Longrightarrow> search (One a # p) (pre @ s) = search (One a # p) s"
  by (induction pre) auto

lemma sub_skip:
  "\<forall>x \<in> set pre. \<not> ok a x \<Longrightarrow> sub (One a # p) repl (pre @ s) = pre @ sub (One a # p) repl s"
  by (induction pre) auto

lemma sub_no_match: "\<not> search p s \<Longrightarrow> sub p repl s = s"
  by (induction s) auto

lemma sub_match_here:
  "match_at p s = Some r \<Longrightarrow> length r < length s \<Longrightarrow> sub p repl s = repl @ sub p repl r"
  by (cases s) auto

lemma sub_contains_repl: "search (One a # p) s \<Longrightarrow> \<exists>pre r. sub (One a # p) repl s = pre @ repl @ r"
proof (induction s)
  case Nil
  then show ?case by simp
next
  case (Cons c cs)
  show ?case
  proof (cases "match_at (One a # p) (c # cs)")
    case None
    with Cons obtain pre r where "sub (One a # p) repl cs = pre @ repl @ r" by auto
    with None have "sub (One a # p) repl (c # cs) = (c # pre) @ repl @ r" by simp
    then show ?thesis by blast
  next
    case (Some r)
    from match_at_One_shorter [OF Some] Some
    have "sub (One a # p) repl (c # cs) = [] @ repl @ sub (One a # p) repl r" by simp
    then show ?thesis by blast
  qed
qed

lemma pattern_heads:
  "AGPL_PATTERN = One (Lit CHR ''/'') # tl AGPL_PATTERN"
  "COPYRIGHT_PATTERN = One (Lit CHR ''/'') # tl COPYRIGHT_PATTERN"
  by (simp_all add: AGPL_PATTERN_def COPYRIGHT_PATTERN_def lits_def)

lemma pattern_cases:
  assumes "P = AGPL_PATTERN \<or> P = COPYRIGHT_PATTERN"
  obtains q where "P = One (Lit CHR ''/'') # q"
  using assms pattern_heads by metis

lemma sub_skip_slash:
  assumes "P = AGPL_PATTERN \<or> P = COPYRIGHT_PATTERN" and "CHR ''/'' \<notin> set pre"
  shows "sub P repl (pre @ s) = pre @ sub P repl s"
proof -
  from assms(1) obtain q where q: "P = One (Lit CHR ''/'') # q" by (rule pattern_cases)
  from assms(2) have "\<forall>x \<in> set pre. \<not> ok (Lit CHR ''/'') x" by auto
  then show ?thesis unfolding q by (rule sub_skip)
qed

lemma search_skip_slash:
  assumes "P = AGPL_PATTERN \<or> P = COPYRIGHT_PATTERN" and "CHR ''/'' \<notin> set pre"
  shows "search P (pre @ s) = search P s"
proof -
  from assms(1) obtain q where q: "P = One (Lit CHR ''/'') # q" by (rule pattern_cases)
  from assms(2) have "\<forall>x \<in> set pre. \<not> ok (Lit CHR ''/'') x" by auto
  then show ?thesis unfolding q by (rule search_skip)
qed

lemma match_shorter:
  assumes "P = AGPL_PATTERN \<or> P = COPYRIGHT_PATTERN" and "match_at P s = Some r"
  shows "length r < length s"
proof -
  from assms(1) obtain q where q: "P = One (Lit CHR ''/'') # q" by (rule pattern_cases)
  from assms(2) show ?thesis unfolding q by (rule match_at_One_shorter)
qed

lemma sub_at_match:
  assumes "P = AGPL_PATTERN \<or> P = COPYRIGHT_PATTERN" and "CHR ''/'' \<notin> set pre"
    and "match_at P s = Some r"
  shows "sub P repl (pre @ s) = pre @ repl @ sub P repl r"
  using sub_skip_slash [OF assms(1,2)] sub_match_here [OF assms(3) match_shorter [OF assms(1,3)]]
  by simp


subsection \<open>Facts about the first occurrence of a substring\<close>

lemma str_in_length: "str_in w s \<Longrightarrow> length w \<le> length s"
  by (auto simp: str_in_iff)

lemma not_str_in_butlast: "old \<noteq> [] \<Longrightarrow> \<not> str_in old (butlast old)"
  by (auto dest!: str_in_length simp: length_greater_0_conv [symmetric] simp del: length_greater_0_conv)

lemma replace_first_prefix: "old \<noteq> [] \<Longrightarrow> replace_first old new (old @ r) = new @ r"
  by (cases old) auto


lemma replace_first_at:
  "old \<noteq> [] \<Longrightarrow> \<not> str_in old (p @ butlast old) \<Longrightarrow> replace_first old new (p @ old @ r) = p @ new @ r"
proof (induction p)
  case Nil
  then show ?case by (simp add: replace_first_prefix)
next
  case (Cons x p)
  have "\<not> prefix old (x # p @ old @ r)"
  proof
    assume pr: "prefix old (x # p @ old @ r)"
    have "length old \<le> length (x # p @ butlast old)" using Cons.prems(1) by (cases old) auto
    moreover have "x # p @ old @ r = (x # p @ butlast old) @ ([last old] @ r)"
      using Cons.prems(1) by simp
    ultimately have "prefix old (x # p @ butlast old)"
      using pr by (metis prefix_length_prefix prefixI)
    with Cons.prems(2) show False by simp
  qed
  moreover from Cons.prems have "\<not> str_in old (p @ butlast old)" by simp
  ultimately show ?case using Cons by simp
qed

lemma replace_first_decomp:
  "old \<noteq> [] \<Longrightarrow> str_in old s \<Longrightarrow>
     \<exists>p r. s = p @ old @ r \<and> \<not> str_in old (p @ butlast old) \<and> replace_first old new s = p @ new @ r"
proof (induction s)
  case Nil
  then show ?case by simp
next
  case (Cons c cs)
  show ?case
  proof (cases "prefix old (c # cs)")
    case True
    then obtain r where r: "c # cs = old @ r" by (auto simp: prefix_def)
    have "c # cs = [] @ old @ r \<and> \<not> str_in old ([] @ butlast old)
          \<and> replace_first old new (c # cs) = [] @ new @ r"
      using r Cons.prems(1) replace_first_prefix [of old new r] not_str_in_butlast [of old]
      by simp
    then show ?thesis by blast
  next
    case False
    with Cons.prems have "str_in old cs" by simp
    from Cons.IH [OF Cons.prems(1) this] obtain p r where
      pr: "cs = p @ old @ r" "\<not> str_in old (p @ butlast old)" "replace_first old new cs = p @ new @ r"
      by blast
    have "\<not> prefix old (c # p @ butlast old)"
    proof
      assume "prefix old (c # p @ butlast old)"
      then have "prefix old ((c # p @ butlast old) @ ([last old] @ r))" by (rule prefix_prefix)
      moreover have "c # p @ old @ r = (c # p @ butlast old) @ ([last old] @ r)"
        using Cons.prems(1) by simp
      ultimately have "prefix old (c # p @ old @ r)" by (simp only:)
      with pr(1) False show False by simp
    qed
    with pr False have "c # cs = (c # p) @ old @ r \<and> \<not> str_in old ((c # p) @ butlast old)
          \<and> replace_first old new (c # cs) = (c # p) @ new @ r"
      by simp
    then show ?thesis by blast
  qed
qed

lemma str_in_skip:
  "\<forall>x \<in> set pre. x \<noteq> a \<Longrightarrow> str_in (a # w) (pre @ s) = str_in (a # w) s"
  by (induction pre) auto

lemma sub_first_match:
  "search (One a # p) c \<Longrightarrow>
     \<exists>pre m r. c = pre @ m @ r \<and> m \<noteq> [] \<and> (\<forall>k < length pre. match_at (One a # p) (drop k c) = None)
        \<and> match_at (One a # p) (m @ r) = Some r
        \<and> sub (One a # p) repl c = pre @ repl @ sub (One a # p) repl r"
proof (induction c)
  case Nil
  then show ?case by simp
next
  case (Cons x xs)
  show ?case
  proof (cases "match_at (One a # p) (x # xs)")
    case None
    with Cons.prems have "search (One a # p) xs" by simp
    from Cons.IH [OF this] obtain pre m r where
      h: "xs = pre @ m @ r" "m \<noteq> []" "\<forall>k < length pre. match_at (One a # p) (drop k xs) = None"
         "match_at (One a # p) (m @ r) = Some r"
         "sub (One a # p) repl xs = pre @ repl @ sub (One a # p) repl r"
      by blast
    have "\<forall>k < length (x # pre). match_at (One a # p) (drop k (x # xs)) = None"
    proof (intro allI impI)
      fix k assume "k < length (x # pre)"
      then show "match_at (One a # p) (drop k (x # xs)) = None"
        using None h(3) by (cases k) auto
    qed
    with h None have "x # xs = (x # pre) @ m @ r \<and> m \<noteq> []
        \<and> (\<forall>k < length (x # pre). match_at (One a # p) (drop k (x # xs)) = None)
        \<and> match_at (One a # p) (m @ r) = Some r
        \<and> sub (One a # p) repl (x # xs) = (x # pre) @ repl @ sub (One a # p) repl r"
      by simp
    then show ?thesis by blast
  next
    case (Some r)
    from match_at_suffix [OF Some] obtain m where m: "x # xs = m @ r" by (auto simp: suffix_def)
    from match_at_One_shorter [OF Some] m have "m \<noteq> []" by auto
    moreover from match_at_One_shorter [OF Some] Some
    have "sub (One a # p) repl (x # xs) = repl @ sub (One a # p) repl r" by simp
    ultimately have "x # xs = [] @ m @ r \<and> m \<noteq> []
        \<and> (\<forall>k < length ([]::string). match_at (One a # p) (drop k (x # xs)) = None)
        \<and> match_at (One a # p) (m @ r) = Some r
        \<and> sub (One a # p) repl (x # xs) = [] @ repl @ sub (One a # p) repl r"
      using m Some by simp
    then show ?thesis by blast
  qed
qed


lemma split_first_line_nl:
  "CHR ''\<newline>'' \<notin> set l0 \<Longrightarrow> split_first_line (l0 @ CHR ''\<newline>'' # t) = (l0, Some t)"
  by (auto simp: split_first_line_def takeWhile_append dropWhile_append Let_def)

lemma split_first_line_single:
  assumes "CHR ''\<newline>'' \<notin> set l0"
  shows "split_first_line l0 = (l0, None)"
proof -
  from assms have "\<forall>x \<in> set l0. x \<noteq> CHR ''\<newline>''" by auto
  then have d: "dropWhile (\<lambda>c. c \<noteq> CHR ''\<newline>'') l0 = []"
    and t: "takeWhile (\<lambda>c. c \<noteq> CHR ''\<newline>'') l0 = l0"
    by simp_all
  show ?thesis unfolding split_first_line_def Let_def d t by simp
qed

subsection \<open>The marker line\<close>

text \<open>
  Claim C8, as amended. In \<^verbatim>\<open>update_file\<close>, for a content that starts with
  \<^verbatim>\<open>'use client'\<close> and on which neither pattern matches, the output keeps the first
  line, followed by a blank line, the replacement header, a blank line and the rest of
  the content (nothing, when the content is a single line); the input
  \<^verbatim>\<open>'use client'\nexport const x = 1;\<close> gives the output of the specification's
  example. \<^verbatim>\<open>process_file\<close> does not look for a marker.
\<close>

theorem marker_preserved:
  "(prefix use_client l0 \<and> CHR ''\<newline>'' \<notin> set l0
      \<and> \<not> search AGPL_PATTERN (l0 @ CHR ''\<newline>'' # t) \<and> \<not> search COPYRIGHT_PATTERN (l0 @ CHR ''\<newline>'' # t)
     \<longrightarrow> update_content (l0 @ CHR ''\<newline>'' # t) = l0 @ ''\<newline>\<newline>'' @ NEW_HEADER @ ''\<newline>\<newline>'' @ t)
   \<and> (prefix use_client l0 \<and> CHR ''\<newline>'' \<notin> set l0
      \<and> \<not> search AGPL_PATTERN l0 \<and> \<not> search COPYRIGHT_PATTERN l0
     \<longrightarrow> update_content l0 = l0 @ ''\<newline>\<newline>'' @ NEW_HEADER @ ''\<newline>\<newline>'')
   \<and> update_content (use_client @ ''\<newline>export const x = 1;'')
       = use_client @ ''\<newline>\<newline>'' @ NEW_HEADER @ ''\<newline>\<newline>export const x = 1;''"
proof -
  have a: "prefix use_client l0 \<and> CHR ''\<newline>'' \<notin> set l0
      \<and> \<not> search AGPL_PATTERN (l0 @ CHR ''\<newline>'' # t) \<and> \<not> search COPYRIGHT_PATTERN (l0 @ CHR ''\<newline>'' # t)
     \<longrightarrow> update_content (l0 @ CHR ''\<newline>'' # t) = l0 @ ''\<newline>\<newline>'' @ NEW_HEADER @ ''\<newline>\<newline>'' @ t"
    by (auto simp: update_content_def split_first_line_nl)
  have b: "prefix use_client l0 \<and> CHR ''\<newline>'' \<notin> set l0
      \<and> \<not> search AGPL_PATTERN l0 \<and> \<not> search COPYRIGHT_PATTERN l0
     \<longrightarrow> update_content l0 = l0 @ ''\<newline>\<newline>'' @ NEW_HEADER @ ''\<newline>\<newline>''"
    by (auto simp: update_content_def split_first_line_single)
  have c: "update_content (use_client @ ''\<newline>export const x = 1;'')
       = use_client @ ''\<newline>\<newline>'' @ NEW_HEADER @ ''\<newline>\<newline>export const x = 1;''"
    by (simp add: update_content_def use_client_def AGPL_PATTERN_def COPYRIGHT_PATTERN_def lits_def
        split_first_line_def)
  from a b c show ?thesis by blast
qed


theorem marker_preserved_witness:
  "prefix use_client use_client \<and> CHR ''\<newline>'' \<notin> set use_client
   \<and> \<not> search AGPL_PATTERN (use_client @ CHR ''\<newline>'' # ''const x = 1;'')
   \<and> \<not> search COPYRIGHT_PATTERN (use_client @ CHR ''\<newline>'' # ''const x = 1;'')
   \<and> update_content (use_client @ CHR ''\<newline>'' # ''const x = 1;'')
       = use_client @ ''\<newline>\<newline>'' @ NEW_HEADER @ ''\<newline>\<newline>'' @ ''const x = 1;''
   \<and> \<not> search AGPL_PATTERN use_client \<and> \<not> search COPYRIGHT_PATTERN use_client
   \<and> update_content use_client = use_client @ ''\<newline>\<newline>'' @ NEW_HEADER @ ''\<newline>\<newline>''"
proof -
  have a: "prefix use_client use_client \<and> CHR ''\<newline>'' \<notin> set use_client"
    by (simp add: use_client_def)
  have b: "\<not> search AGPL_PATTERN (use_client @ CHR ''\<newline>'' # ''const x = 1;'')
           \<and> \<not> search COPYRIGHT_PATTERN (use_client @ CHR ''\<newline>'' # ''const x = 1;'')"
    by (simp add: use_client_def AGPL_PATTERN_def COPYRIGHT_PATTERN_def lits_def)
  have c: "\<not> search AGPL_PATTERN use_client \<and> \<not> search COPYRIGHT_PATTERN use_client"
    by (simp add: use_client_def AGPL_PATTERN_def COPYRIGHT_PATTERN_def lits_def)
  from a b c marker_preserved [of use_client "''const x = 1;''"] show ?thesis
    by blast
qed

text \<open>
  The claim as stated fails for \<^verbatim>\<open>process_file\<close>: on the example input the header is
  put in front of the marker, which is no longer the first line.
\<close>

theorem marker_counterexample:
  "process_content (use_client @ ''\<newline>export const x = 1;'')
     = NEW_AGPL_HEADER @ ''\<newline>\<newline>'' @ use_client @ ''\<newline>export const x = 1;''"
  by (simp add: process_content_def use_client_def OLD_MIT_HEADER_def no_copyright_def)


subsection \<open>Replacing the old header\<close>

text \<open>
  Claim C3, as amended. For a content that holds the old header text, \<^verbatim>\<open>process_file\<close>
  reports replaced and replaces the first occurrence of that text by the replacement
  header, nothing else: the text before and after it is kept and no blank line is added.
  For a content on which the AGPL pattern matches, \<^verbatim>\<open>update_file\<close> replaces the first
  match by the replacement header followed by one blank line, keeps the text before it,
  and treats the text after it in the same way. (How often the replacement header then
  occurs, and whether old header text remains further on, depends on the rest of the
  content.)
\<close>

theorem old_header_replaced:
  "(str_in OLD_MIT_HEADER c \<longrightarrow>
      process_outcome c = Replaced
      \<and> (\<exists>p r. c = p @ OLD_MIT_HEADER @ r \<and> \<not> str_in OLD_MIT_HEADER (p @ butlast OLD_MIT_HEADER)
               \<and> process_content c = p @ NEW_AGPL_HEADER @ r))
   \<and> (search AGPL_PATTERN c \<longrightarrow>
      (\<exists>pre m r. c = pre @ m @ r \<and> m \<noteq> []
          \<and> (\<forall>k < length pre. match_at AGPL_PATTERN (drop k c) = None)
          \<and> match_at AGPL_PATTERN (m @ r) = Some r
          \<and> update_content c
              = pre @ (NEW_HEADER @ ''\<newline>\<newline>'') @ sub AGPL_PATTERN (NEW_HEADER @ ''\<newline>\<newline>'') r))"
proof -
  have a: "str_in OLD_MIT_HEADER c \<longrightarrow>
      process_outcome c = Replaced
      \<and> (\<exists>p r. c = p @ OLD_MIT_HEADER @ r \<and> \<not> str_in OLD_MIT_HEADER (p @ butlast OLD_MIT_HEADER)
               \<and> process_content c = p @ NEW_AGPL_HEADER @ r)"
    using replace_first_decomp [OF OLD_MIT_HEADER_not_Nil, of c NEW_AGPL_HEADER]
    by (simp add: process_outcome_def process_content_def)
  have b: "search AGPL_PATTERN c \<longrightarrow>
      (\<exists>pre m r. c = pre @ m @ r \<and> m \<noteq> []
          \<and> (\<forall>k < length pre. match_at AGPL_PATTERN (drop k c) = None)
          \<and> match_at AGPL_PATTERN (m @ r) = Some r
          \<and> update_content c
              = pre @ (NEW_HEADER @ ''\<newline>\<newline>'') @ sub AGPL_PATTERN (NEW_HEADER @ ''\<newline>\<newline>'') r)"
  proof
    assume s: "search AGPL_PATTERN c"
    then have u: "update_content c = sub AGPL_PATTERN (NEW_HEADER @ ''\<newline>\<newline>'') c"
      by (simp add: update_content_def)
    obtain q where q: "AGPL_PATTERN = One (Lit CHR ''/'') # q"
      using pattern_heads(1) by blast
    from sub_first_match [of "Lit CHR ''/''" q c "NEW_HEADER @ ''\<newline>\<newline>''"] s
    show "\<exists>pre m r. c = pre @ m @ r \<and> m \<noteq> []
          \<and> (\<forall>k < length pre. match_at AGPL_PATTERN (drop k c) = None)
          \<and> match_at AGPL_PATTERN (m @ r) = Some r
          \<and> update_content c
              = pre @ (NEW_HEADER @ ''\<newline>\<newline>'') @ sub AGPL_PATTERN (NEW_HEADER @ ''\<newline>\<newline>'') r"
      unfolding u q by blast
  qed
  from a b show ?thesis by blast
qed


theorem old_header_replaced_witness:
  "str_in OLD_MIT_HEADER
     (OLD_MIT_HEADER @ ''/*\<newline> * CIV.IQ\<newline> * GNU Affero General Public License\<newline> */\<newline>'')
   \<and> search AGPL_PATTERN
     (OLD_MIT_HEADER @ ''/*\<newline> * CIV.IQ\<newline> * GNU Affero General Public License\<newline> */\<newline>'')
   \<and> process_outcome
     (OLD_MIT_HEADER @ ''/*\<newline> * CIV.IQ\<newline> * GNU Affero General Public License\<newline> */\<newline>'')
       = Replaced
   \<and> (\<exists>p r. OLD_MIT_HEADER @ ''/*\<newline> * CIV.IQ\<newline> * GNU Affero General Public License\<newline> */\<newline>''
                = p @ OLD_MIT_HEADER @ r
            \<and> process_content
                (OLD_MIT_HEADER @ ''/*\<newline> * CIV.IQ\<newline> * GNU Affero General Public License\<newline> */\<newline>'')
                = p @ NEW_AGPL_HEADER @ r)
   \<and> (\<exists>pre r. update_content
                (OLD_MIT_HEADER @ ''/*\<newline> * CIV.IQ\<newline> * GNU Affero General Public License\<newline> */\<newline>'')
                = pre @ (NEW_HEADER @ ''\<newline>\<newline>'') @ sub AGPL_PATTERN (NEW_HEADER @ ''\<newline>\<newline>'') r)"
proof -
  let ?b = "''/*\<newline> * CIV.IQ\<newline> * GNU Affero General Public License\<newline> */\<newline>''"
  have a: "str_in OLD_MIT_HEADER (OLD_MIT_HEADER @ ?b)"
    using str_in_appendI [of OLD_MIT_HEADER "[]" ?b] by simp
  have "match_at AGPL_PATTERN ?b = Some []"
    by (simp add: AGPL_PATTERN_def lits_def isspace_def)
  then have b: "search AGPL_PATTERN (OLD_MIT_HEADER @ ?b)"
    using search_appendI [OF search_match, of AGPL_PATTERN ?b OLD_MIT_HEADER] by simp
  from a b old_header_replaced [of "OLD_MIT_HEADER @ ?b"] show ?thesis
    by blast
qed

text \<open>
  The claim as stated fails for \<^verbatim>\<open>process_file\<close>: of two old headers the second one
  stays in the output, and the text after a replaced header is kept as it is, without a
  blank line in between.
\<close>

theorem old_header_replaced_counterexample:
  "str_in OLD_MIT_HEADER (OLD_MIT_HEADER @ OLD_MIT_HEADER)
   \<and> process_content (OLD_MIT_HEADER @ OLD_MIT_HEADER) = NEW_AGPL_HEADER @ OLD_MIT_HEADER
   \<and> str_in OLD_MIT_HEADER (process_content (OLD_MIT_HEADER @ OLD_MIT_HEADER))
   \<and> process_content (OLD_MIT_HEADER @ ''x'') = NEW_AGPL_HEADER @ ''x''"
proof -
  have 1: "str_in OLD_MIT_HEADER (OLD_MIT_HEADER @ OLD_MIT_HEADER)"
    using str_in_appendI [of OLD_MIT_HEADER "[]" OLD_MIT_HEADER] by simp
  have 2: "process_content (OLD_MIT_HEADER @ OLD_MIT_HEADER) = NEW_AGPL_HEADER @ OLD_MIT_HEADER"
    using 1 by (simp add: process_content_def replace_first_prefix OLD_MIT_HEADER_not_Nil)
  have 3: "str_in OLD_MIT_HEADER (NEW_AGPL_HEADER @ OLD_MIT_HEADER)"
    using str_in_appendI [of OLD_MIT_HEADER NEW_AGPL_HEADER "[]"] by simp
  have 4: "str_in OLD_MIT_HEADER (OLD_MIT_HEADER @ ''x'')"
    using str_in_appendI [of OLD_MIT_HEADER "[]" "''x''"] by simp
  have 5: "process_content (OLD_MIT_HEADER @ ''x'') = NEW_AGPL_HEADER @ ''x''"
    using 4 by (simp add: process_content_def replace_first_prefix OLD_MIT_HEADER_not_Nil)
  from 1 2 3 5 show ?thesis by simp
qed


subsection \<open>Where a header may stand\<close>

text \<open>
  Claim C10, as amended. The matchers are not tied to the start of the content. The old
  header text makes \<^verbatim>\<open>process_file\<close> report replaced wherever it stands, and its first
  occurrence is replaced; a match of either pattern of \<^verbatim>\<open>update_file\<close> is found by the
  search behind any text, and behind a text without a slash that match is the first one
  to be replaced. The one test that looks at a bounded part of the content is the test
  of \<^verbatim>\<open>process_file\<close> for a copyright word, which reads the first 1000 characters.
\<close>

theorem matchers_unanchored:
  "process_outcome (pre @ OLD_MIT_HEADER @ r) = Replaced
   \<and> (\<not> str_in OLD_MIT_HEADER (pre @ butlast OLD_MIT_HEADER)
        \<longrightarrow> process_content (pre @ OLD_MIT_HEADER @ r) = pre @ NEW_AGPL_HEADER @ r)
   \<and> (match_at AGPL_PATTERN s \<noteq> None \<longrightarrow> search AGPL_PATTERN (pre @ s))
   \<and> (match_at COPYRIGHT_PATTERN s' \<noteq> None \<longrightarrow> search COPYRIGHT_PATTERN (pre @ s'))
   \<and> (CHR ''/'' \<notin> set pre \<and> match_at AGPL_PATTERN s = Some t
        \<longrightarrow> update_content (pre @ s)
            = pre @ (NEW_HEADER @ ''\<newline>\<newline>'') @ sub AGPL_PATTERN (NEW_HEADER @ ''\<newline>\<newline>'') t)
   \<and> (CHR ''/'' \<notin> set pre \<and> \<not> search AGPL_PATTERN (pre @ s')
          \<and> match_at COPYRIGHT_PATTERN s' = Some t'
        \<longrightarrow> update_content (pre @ s')
            = pre @ (NEW_HEADER @ ''\<newline>\<newline>'') @ sub COPYRIGHT_PATTERN (NEW_HEADER @ ''\<newline>\<newline>'') t')
   \<and> no_copyright c = no_copyright (take 1000 c)"
proof -
  have 1: "process_outcome (pre @ OLD_MIT_HEADER @ r) = Replaced"
    by (simp add: process_outcome_def str_in_appendI)
  have 2: "\<not> str_in OLD_MIT_HEADER (pre @ butlast OLD_MIT_HEADER)
        \<longrightarrow> process_content (pre @ OLD_MIT_HEADER @ r) = pre @ NEW_AGPL_HEADER @ r"
    by (simp add: process_content_def str_in_appendI replace_first_at OLD_MIT_HEADER_not_Nil)
  have 3: "match_at AGPL_PATTERN s \<noteq> None \<longrightarrow> search AGPL_PATTERN (pre @ s)"
    by (blast intro: search_appendI search_match)
  have 4: "match_at COPYRIGHT_PATTERN s' \<noteq> None \<longrightarrow> search COPYRIGHT_PATTERN (pre @ s')"
    by (blast intro: search_appendI search_match)
  have 5: "CHR ''/'' \<notin> set pre \<and> match_at AGPL_PATTERN s = Some t
        \<longrightarrow> update_content (pre @ s)
            = pre @ (NEW_HEADER @ ''\<newline>\<newline>'') @ sub AGPL_PATTERN (NEW_HEADER @ ''\<newline>\<newline>'') t"
  proof
    assume h: "CHR ''/'' \<notin> set pre \<and> match_at AGPL_PATTERN s = Some t"
    then have "search AGPL_PATTERN (pre @ s)" using 3 by simp
    then have "update_content (pre @ s) = sub AGPL_PATTERN (NEW_HEADER @ ''\<newline>\<newline>'') (pre @ s)"
      by (simp add: update_content_def)
    also have "\<dots> = pre @ (NEW_HEADER @ ''\<newline>\<newline>'') @ sub AGPL_PATTERN (NEW_HEADER @ ''\<newline>\<newline>'') t"
      using h by (intro sub_at_match) auto
    finally show "update_content (pre @ s)
            = pre @ (NEW_HEADER @ ''\<newline>\<newline>'') @ sub AGPL_PATTERN (NEW_HEADER @ ''\<newline>\<newline>'') t" .
  qed
  have 6: "CHR ''/'' \<notin> set pre \<and> \<not> search AGPL_PATTERN (pre @ s')
          \<and> match_at COPYRIGHT_PATTERN s' = Some t'
        \<longrightarrow> update_content (pre @ s')
            = pre @ (NEW_HEADER @ ''\<newline>\<newline>'') @ sub COPYRIGHT_PATTERN (NEW_HEADER @ ''\<newline>\<newline>'') t'"
  proof
    assume h: "CHR ''/'' \<notin> set pre \<and> \<not> search AGPL_PATTERN (pre @ s')
          \<and> match_at COPYRIGHT_PATTERN s' = Some t'"
    then have "search COPYRIGHT_PATTERN (pre @ s')" using 4 by simp
    with h have "update_content (pre @ s')
        = sub COPYRIGHT_PATTERN (NEW_HEADER @ ''\<newline>\<newline>'') (pre @ s')"
      by (simp add: update_content_def)
    also have "\<dots> = pre @ (NEW_HEADER @ ''\<newline>\<newline>'') @ sub COPYRIGHT_PATTERN (NEW_HEADER @ ''\<newline>\<newline>'') t'"
      using h by (intro sub_at_match) auto
    finally show "update_content (pre @ s')
            = pre @ (NEW_HEADER @ ''\<newline>\<newline>'') @ sub COPYRIGHT_PATTERN (NEW_HEADER @ ''\<newline>\<newline>'') t'" .
  qed
  have 7: "no_copyright c = no_copyright (take 1000 c)"
    by (simp add: no_copyright_def)
  from 1 2 3 4 5 6 7 show ?thesis by blast
qed

theorem matchers_unanchored_witness:
  "\<not> str_in OLD_MIT_HEADER (''const x = 1;\<newline>'' @ butlast OLD_MIT_HEADER)
   \<and> process_content (''const x = 1;\<newline>'' @ OLD_MIT_HEADER @ ''y'')
       = ''const x = 1;\<newline>'' @ NEW_AGPL_HEADER @ ''y''
   \<and> CHR ''/'' \<notin> set ''const x = 1;\<newline>''
   \<and> match_at AGPL_PATTERN ''/*\<newline> * CIV.IQ\<newline> * GNU Affero General Public License\<newline> */\<newline>'' = Some []
   \<and> update_content
       (''const x = 1;\<newline>'' @ ''/*\<newline> * CIV.IQ\<newline> * GNU Affero General Public License\<newline> */\<newline>'')
       = ''const x = 1;\<newline>'' @ NEW_HEADER @ ''\<newline>\<newline>''
   \<and> \<not> search AGPL_PATTERN (''const x = 1;\<newline>'' @ ''/*\<newline> * Copyright me\<newline> */\<newline>'')
   \<and> match_at COPYRIGHT_PATTERN ''/*\<newline> * Copyright me\<newline> */\<newline>'' = Some []
   \<and> search COPYRIGHT_PATTERN (''const x = 1;\<newline>'' @ ''/*\<newline> * Copyright me\<newline> */\<newline>'')
   \<and> update_content (''const x = 1;\<newline>'' @ ''/*\<newline> * Copyright me\<newline> */\<newline>'')
       = ''const x = 1;\<newline>'' @ NEW_HEADER @ ''\<newline>\<newline>''"
proof -
  let ?pre = "''const x = 1;\<newline>''"
  let ?a = "''/*\<newline> * CIV.IQ\<newline> * GNU Affero General Public License\<newline> */\<newline>''"
  let ?b = "''/*\<newline> * Copyright me\<newline> */\<newline>''"
  obtain w where w: "OLD_MIT_HEADER = CHR ''/'' # w"
    by (simp add: OLD_MIT_HEADER_def)
  have "str_in OLD_MIT_HEADER (?pre @ butlast OLD_MIT_HEADER)
          = str_in OLD_MIT_HEADER (butlast OLD_MIT_HEADER)"
    unfolding w by (rule str_in_skip) simp
  then have 1: "\<not> str_in OLD_MIT_HEADER (?pre @ butlast OLD_MIT_HEADER)"
    using not_str_in_butlast [OF OLD_MIT_HEADER_not_Nil] by simp
  have 2: "CHR ''/'' \<notin> set ?pre" by simp
  have 3: "match_at AGPL_PATTERN ?a = Some []"
    by (simp add: AGPL_PATTERN_def lits_def isspace_def)
  have 4: "\<not> search AGPL_PATTERN (?pre @ ?b)"
    by (simp add: AGPL_PATTERN_def lits_def isspace_def)
  have 5: "match_at COPYRIGHT_PATTERN ?b = Some []"
    by (simp add: COPYRIGHT_PATTERN_def lits_def isspace_def)
  from 1 2 3 4 5 matchers_unanchored [of ?pre "''y''" ?a ?b "[]" "[]" "''y''"]
  show ?thesis by simp
qed

text \<open>
  The claim as stated fails for both scripts: behind 1500 other characters the old
  header text is still replaced by \<^verbatim>\<open>process_file\<close>, and a copyright comment block is
  still replaced by \<^verbatim>\<open>update_file\<close>.
\<close>

theorem matchers_unanchored_counterexample:
  "process_outcome (replicate 1500 (CHR ''x'') @ OLD_MIT_HEADER) = Replaced
   \<and> process_content (replicate 1500 (CHR ''x'') @ OLD_MIT_HEADER)
       = replicate 1500 (CHR ''x'') @ NEW_AGPL_HEADER
   \<and> update_content (replicate 1500 (CHR ''x'') @ ''/*\<newline> * Copyright me\<newline> */\<newline>'')
       = replicate 1500 (CHR ''x'') @ NEW_HEADER @ ''\<newline>\<newline>''"
proof -
  let ?pre = "replicate 1500 (CHR ''x'')"
  have 1: "process_outcome (?pre @ OLD_MIT_HEADER) = Replaced"
    using str_in_appendI [of OLD_MIT_HEADER ?pre "[]"] by (simp add: process_outcome_def)
  obtain w where w: "OLD_MIT_HEADER = CHR ''/'' # w"
    by (simp add: OLD_MIT_HEADER_def)
  have "str_in OLD_MIT_HEADER (?pre @ butlast OLD_MIT_HEADER) = str_in OLD_MIT_HEADER (butlast OLD_MIT_HEADER)"
    unfolding w by (rule str_in_skip) simp
  then have "\<not> str_in OLD_MIT_HEADER (?pre @ butlast OLD_MIT_HEADER)"
    using not_str_in_butlast [OF OLD_MIT_HEADER_not_Nil] by simp
  then have 2: "process_content (?pre @ OLD_MIT_HEADER) = ?pre @ NEW_AGPL_HEADER"
    using replace_first_at [OF OLD_MIT_HEADER_not_Nil, of ?pre NEW_AGPL_HEADER "[]"]
      str_in_appendI [of OLD_MIT_HEADER ?pre "[]"]
    by (simp add: process_content_def)
  have s: "CHR ''/'' \<notin> set ?pre" by simp
  have a: "\<not> search AGPL_PATTERN ''/*\<newline> * Copyright me\<newline> */\<newline>''"
    by (simp add: AGPL_PATTERN_def lits_def isspace_def)
  have m: "match_at COPYRIGHT_PATTERN ''/*\<newline> * Copyright me\<newline> */\<newline>'' = Some []"
    by (simp add: COPYRIGHT_PATTERN_def lits_def isspace_def)
  have "search COPYRIGHT_PATTERN (?pre @ ''/*\<newline> * Copyright me\<newline> */\<newline>'')"
    using m search_appendI [OF search_match, of COPYRIGHT_PATTERN _ ?pre] by simp
  moreover have "\<not> search AGPL_PATTERN (?pre @ ''/*\<newline> * Copyright me\<newline> */\<newline>'')"
    using a search_skip_slash [OF _ s, of AGPL_PATTERN] by simp
  ultimately have "update_content (?pre @ ''/*\<newline> * Copyright me\<newline> */\<newline>'')
      = sub COPYRIGHT_PATTERN (NEW_HEADER @ ''\<newline>\<newline>'') (?pre @ ''/*\<newline> * Copyright me\<newline> */\<newline>'')"
    by (simp add: update_content_def)
  also have "\<dots> = ?pre @ (NEW_HEADER @ ''\<newline>\<newline>'') @ sub COPYRIGHT_PATTERN (NEW_HEADER @ ''\<newline>\<newline>'') []"
    using s m by (intro sub_at_match) auto
  finally have 3: "update_content (?pre @ ''/*\<newline> * Copyright me\<newline> */\<newline>'')
       = ?pre @ NEW_HEADER @ ''\<newline>\<newline>''" by simp
  from 1 2 3 show ?thesis by blast
qed

subsection \<open>What the copyright pattern matches\<close>

lemma COPYRIGHT_PATTERN_split:
  "COPYRIGHT_PATTERN
     = One (Lit CHR ''/'') # One (Lit CHR ''*'') # Opt (Lit CHR ''*'')
       # Star Space # One (Lit CHR ''\<newline>'') # Lazy Any # token_tail"
  by (simp add: COPYRIGHT_PATTERN_def token_tail_def close_tail_def lits_def)

lemma match_at_lits:
  "match_at (lits w @ q) s = (if prefix w s then match_at q (drop (length w) s) else None)"
proof (induction w arbitrary: s)
  case Nil
  then show ?case by (simp add: lits_def)
next
  case (Cons a w)
  then show ?case by (cases s) (auto simp: lits_def)
qed

lemma lazy_here: "match_at p s = Some r \<Longrightarrow> match_at (Lazy a # p) s = Some r"
  by (cases s) auto

lemma lazy_skip:
  "(\<And>v. v \<noteq> [] \<Longrightarrow> suffix v b \<Longrightarrow> match_at p (v @ s) = None)
     \<Longrightarrow> match_at (Lazy Any # p) (b @ s) = match_at (Lazy Any # p) s"
proof (induction b)
  case Nil
  then show ?case by simp
next
  case (Cons x b)
  have "match_at p ((x # b) @ s) = None"
    by (rule Cons.prems) simp_all
  moreover have "match_at (Lazy Any # p) (b @ s) = match_at (Lazy Any # p) s"
  proof (rule Cons.IH)
    fix v assume "v \<noteq> []" "suffix v b"
    then show "match_at p (v @ s) = None"
      by (intro Cons.prems) (auto intro: suffix_ConsI)
  qed
  ultimately show ?case by simp
qed

lemma star_back:
  "\<forall>x \<in> set w. ok a x \<Longrightarrow> ok a y \<Longrightarrow> match_at (Star a # p) s = None
     \<Longrightarrow> match_at p (y # s) = Some r \<Longrightarrow> match_at (Star a # p) (w @ y # s) = Some r"
  by (induction w) auto

text \<open>
  The end of a block: the close, then blanks up to the last newline. The greedy
  \<^verbatim>\<open>\s*\n\<close> fails on a text whose leading whitespace holds no newline, and the text
  left by a successful \<^verbatim>\<open>\s*\n\<close> is such a text.
\<close>

lemma isspace_newline: "isspace CHR ''\<newline>''"
  by (simp add: isspace_def)

lemma blanks_no_match:
  "CHR ''\<newline>'' \<notin> set (takeWhile isspace c)
     \<Longrightarrow> match_at [Star Space, One (Lit CHR ''\<newline>'')] c = None"
proof (induction c)
  case Nil
  then show ?case by simp
next
  case (Cons x xs)
  show ?case
  proof (cases "isspace x")
    case True
    with Cons show ?thesis by auto
  next
    case False
    then have "x \<noteq> CHR ''\<newline>''" using isspace_newline by auto
    with False show ?thesis by simp
  qed
qed

lemma no_match_blanks:
  "match_at [Star Space, One (Lit CHR ''\<newline>'')] c = None
     \<Longrightarrow> CHR ''\<newline>'' \<notin> set (takeWhile isspace c)"
proof (induction c)
  case Nil
  then show ?case by simp
next
  case (Cons x xs)
  show ?case
  proof (cases "isspace x")
    case True
    with Cons.prems have "match_at [Star Space, One (Lit CHR ''\<newline>'')] xs = None"
      and "x \<noteq> CHR ''\<newline>''"
      by (auto split: option.splits if_splits)
    with Cons.IH True show ?thesis by simp
  next
    case False
    then show ?thesis by simp
  qed
qed

lemma blanks_left:
  "match_at [Star Space, One (Lit CHR ''\<newline>'')] c = Some r
     \<Longrightarrow> CHR ''\<newline>'' \<notin> set (takeWhile isspace r)"
proof (induction c)
  case Nil
  then show ?case by simp
next
  case (Cons x xs)
  show ?case
  proof (cases "match_at [Star Space, One (Lit CHR ''\<newline>'')] xs")
    case None
    with Cons.prems have "r = xs"
      by (auto split: if_splits)
    with None show ?thesis by (simp add: no_match_blanks)
  next
    case (Some r')
    show ?thesis
    proof (cases "isspace x")
      case True
      with Some Cons.prems have "r' = r" by simp
      with Some Cons.IH show ?thesis by simp
    next
      case False
      with Cons.prems have "r = xs" "x = CHR ''\<newline>''" by (auto split: if_splits)
      with False isspace_newline show ?thesis by simp
    qed
  qed
qed

lemma close_here:
  assumes "\<forall>x \<in> set ws2. isspace x" and "CHR ''\<newline>'' \<notin> set (takeWhile isspace rest)"
  shows "match_at close_tail (''*/'' @ ws2 @ CHR ''\<newline>'' # rest) = Some rest"
proof -
  have n: "match_at (Star Space # [One (Lit CHR ''\<newline>'')]) rest = None"
    using assms(2) by (rule blanks_no_match)
  have "match_at (Star Space # [One (Lit CHR ''\<newline>'')]) (ws2 @ CHR ''\<newline>'' # rest) = Some rest"
    using assms(1) isspace_newline n by (intro star_back) auto
  then show ?thesis by (simp add: close_tail_def lits_def)
qed

lemma close_skip:
  assumes "\<not> str_in ''*/'' b2" and "v \<noteq> []" and "suffix v b2"
  shows "match_at close_tail (v @ ''*/'' @ s) = None"
proof -
  from assms(2) obtain x v' where v: "v = x # v'" by (cases v) auto
  have "\<not> prefix ''*/'' (v @ ''*/'' @ s)"
  proof
    assume p: "prefix ''*/'' (v @ ''*/'' @ s)"
    show False
    proof (cases v')
      case Nil
      with p v show ?thesis by simp
    next
      case (Cons y v'')
      with p v have "prefix ''*/'' v" by simp
      then obtain t where "v = ''*/'' @ t" by (auto simp: prefix_def)
      moreover from assms(3) obtain u where "b2 = u @ v" by (auto simp: suffix_def)
      ultimately have "b2 = u @ ''*/'' @ t" by simp
      then have "str_in ''*/'' b2" by (simp only: str_in_appendI)
      with assms(1) show ?thesis by simp
    qed
  qed
  then show ?thesis
    using match_at_lits [of "''*/''" "[Star Space, One (Lit CHR ''\<newline>'')]" "v @ ''*/'' @ s"]
    by (simp add: close_tail_def)
qed

lemma token_here:
  assumes "tok = ''Copyright'' \<or> tok = ''copyright''" and "match_at (Lazy Any # close_tail) s = Some r"
  shows "match_at token_tail (tok @ s) = Some r"
  using assms match_at_lits [of "''opyright''" "Lazy Any # close_tail" "''opyright'' @ s"]
  by (auto simp: token_tail_def)

lemma token_skip:
  assumes "\<not> str_in ''Copyright'' b1" and "\<not> str_in ''copyright'' b1"
    and "tok = ''Copyright'' \<or> tok = ''copyright''" and "v \<noteq> []" and "suffix v b1"
  shows "match_at token_tail (v @ tok @ s) = None"
proof -
  from assms(4) obtain x v' where v: "v = x # v'" by (cases v) auto
  from assms(5) obtain u where u: "b1 = u @ v" by (auto simp: suffix_def)
  have "\<not> ((x = CHR ''C'' \<or> x = CHR ''c'') \<and> prefix ''opyright'' (v' @ tok @ s))"
  proof
    assume h: "(x = CHR ''C'' \<or> x = CHR ''c'') \<and> prefix ''opyright'' (v' @ tok @ s)"
    define z where "z = tok @ s"
    from h have "prefix ''opyright'' (v' @ z)" by (simp add: z_def)
    then have "prefix ''opyright'' v' \<or> (\<exists>us. ''opyright'' = v' @ us \<and> prefix us z)"
      by (simp only: prefix_append)
    then consider "prefix ''opyright'' v'"
      | us where "''opyright'' = v' @ us" "us \<noteq> []" "prefix us (tok @ s)"
      unfolding z_def by (metis append_Nil2 prefix_order.order_refl)
    then show False
    proof cases
      case 1
      then obtain t where "v' = ''opyright'' @ t" by (auto simp: prefix_def)
      with u v have "b1 = u @ (x # ''opyright'') @ t" by simp
      then have "str_in (x # ''opyright'') b1" by (simp only: str_in_appendI)
      with h assms(1,2) show ?thesis by auto
    next
      case 2
      from 2(2) obtain y us' where us: "us = y # us'" by (cases us) auto
      with 2(3) assms(3) have "y = CHR ''C'' \<or> y = CHR ''c''" by auto
      moreover have "y \<in> set ''opyright''"
        unfolding 2(1) us by simp
      ultimately show ?thesis by auto
    qed
  qed
  then show ?thesis
    using match_at_lits [of "''opyright''" "Lazy Any # close_tail" "v' @ tok @ s"]
    by (auto simp: token_tail_def v)
qed


lemma body_match:
  assumes "\<not> str_in ''Copyright'' b1" and "\<not> str_in ''copyright'' b1"
    and "tok = ''Copyright'' \<or> tok = ''copyright''"
    and "\<not> str_in ''*/'' b2"
    and "\<forall>x \<in> set ws2. isspace x" and "CHR ''\<newline>'' \<notin> set (takeWhile isspace rest)"
    and "suffix v b1"
  shows "match_at (Lazy Any # token_tail) (v @ tok @ b2 @ ''*/'' @ ws2 @ CHR ''\<newline>'' # rest) = Some rest"
proof -
  let ?s3 = "''*/'' @ ws2 @ CHR ''\<newline>'' # rest"
  have "match_at (Lazy Any # close_tail) (b2 @ ?s3) = match_at (Lazy Any # close_tail) ?s3"
    using close_skip [OF assms(4)] by (intro lazy_skip) simp
  also have "\<dots> = Some rest"
    using close_here [OF assms(5,6)] by (rule lazy_here)
  finally have "match_at token_tail (tok @ b2 @ ?s3) = Some rest"
    using assms(3) by (intro token_here)
  then have "match_at (Lazy Any # token_tail) (tok @ b2 @ ?s3) = Some rest"
    by (rule lazy_here)
  moreover have "match_at (Lazy Any # token_tail) (v @ tok @ b2 @ ?s3)
      = match_at (Lazy Any # token_tail) (tok @ b2 @ ?s3)"
  proof (rule lazy_skip)
    fix u assume "u \<noteq> []" "suffix u v"
    with assms(7) have "suffix u b1" by (auto intro: suffix_order.trans)
    with \<open>u \<noteq> []\<close> show "match_at token_tail (u @ tok @ b2 @ ?s3) = None"
      using assms(1,2,3) by (intro token_skip)
  qed
  ultimately show ?thesis by simp
qed

lemma lead_back:
  assumes "\<And>v. suffix v b \<Longrightarrow> match_at q (v @ T # s) = Some r"
    and "\<not> isspace T" and "suffix v b"
  shows "match_at (Star Space # One (Lit CHR ''\<newline>'') # q) (v @ T # s) = None
       \<or> match_at (Star Space # One (Lit CHR ''\<newline>'') # q) (v @ T # s) = Some r"
  using assms(3)
proof (induction v)
  case Nil
  from assms(2) have "T \<noteq> CHR ''\<newline>''" by (auto simp: isspace_def)
  with assms(2) show ?case by simp
next
  case (Cons x v)
  then have sv: "suffix v b" by (auto dest: suffix_ConsD)
  from assms(1) [OF sv] Cons.IH [OF sv] show ?case by auto
qed

lemma lead_match:
  assumes "\<And>v. suffix v b \<Longrightarrow> match_at q (v @ T # s) = Some r"
    and "\<not> isspace T" and "\<forall>x \<in> set w. isspace x"
  shows "match_at (Star Space # One (Lit CHR ''\<newline>'') # q) (w @ CHR ''\<newline>'' # b @ T # s) = Some r"
  using assms(3)
proof (induction w)
  case Nil
  have "isspace CHR ''\<newline>''" by (simp add: isspace_def)
  moreover have "match_at q (b @ T # s) = Some r" by (rule assms(1)) simp
  moreover have "suffix b b" by simp
  note lead_back [OF assms(1,2) this]
  ultimately show ?case by auto
next
  case (Cons x w)
  then show ?case by simp
qed

lemma copyright_block_match:
  assumes "opener = ''/*'' \<or> opener = ''/**''"
    and "\<forall>x \<in> set ws1. isspace x"
    and "\<not> str_in ''Copyright'' b1" and "\<not> str_in ''copyright'' b1"
    and "tok = ''Copyright'' \<or> tok = ''copyright''"
    and "\<not> str_in ''*/'' b2"
    and "\<forall>x \<in> set ws2. isspace x" and "CHR ''\<newline>'' \<notin> set (takeWhile isspace rest)"
  shows "match_at COPYRIGHT_PATTERN
           (opener @ ws1 @ CHR ''\<newline>'' # b1 @ tok @ b2 @ ''*/'' @ ws2 @ CHR ''\<newline>'' # rest) = Some rest"
proof -
  let ?s = "b2 @ ''*/'' @ ws2 @ CHR ''\<newline>'' # rest"
  let ?G = "Star Space # One (Lit CHR ''\<newline>'') # Lazy Any # token_tail"
  from assms(5) obtain T t where tok: "tok = T # t" "\<not> isspace T"
    by (auto simp: isspace_def)
  have body: "\<And>v. suffix v b1 \<Longrightarrow> match_at (Lazy Any # token_tail) (v @ T # t @ ?s) = Some rest"
    using body_match [OF assms(3,4,5,6,7,8)] by (simp add: tok)
  have g: "match_at ?G (ws1 @ CHR ''\<newline>'' # b1 @ T # t @ ?s) = Some rest"
    using body tok(2) assms(2) by (rule lead_match)
  have nostar: "\<And>z. ws1 @ CHR ''\<newline>'' # z \<noteq> [] \<and> hd (ws1 @ CHR ''\<newline>'' # z) \<noteq> CHR ''*''"
    using assms(2) by (cases ws1) (auto simp: isspace_def)
  have o: "match_at (Opt (Lit CHR ''*'') # ?G) (ws1 @ CHR ''\<newline>'' # b1 @ T # t @ ?s) = Some rest"
    using g nostar [of "b1 @ T # t @ ?s"]
    by (cases "ws1 @ CHR ''\<newline>'' # b1 @ T # t @ ?s") auto
  from assms(1) show ?thesis
  proof
    assume "opener = ''/*''"
    then show ?thesis using o by (simp add: COPYRIGHT_PATTERN_split tok)
  next
    assume "opener = ''/**''"
    then show ?thesis using g by (simp add: COPYRIGHT_PATTERN_split tok)
  qed
qed


lemma match_One_D:
  "match_at (One a # p) s = Some r \<Longrightarrow> \<exists>x s'. s = x # s' \<and> ok a x \<and> match_at p s' = Some r"
  by (cases s) (auto split: if_splits)

lemma match_Opt_D:
  "match_at (Opt a # p) s = Some r
     \<Longrightarrow> match_at p s = Some r \<or> (\<exists>x s'. s = x # s' \<and> ok a x \<and> match_at p s' = Some r)"
  by (cases s) (auto split: if_splits option.splits)

lemma match_Star_D:
  "match_at (Star a # p) s = Some r
     \<Longrightarrow> \<exists>u v. s = u @ v \<and> (\<forall>x \<in> set u. ok a x) \<and> match_at p v = Some r"
proof (induction s)
  case Nil
  then show ?case by simp
next
  case (Cons c cs)
  have here: "match_at p (c # cs) = Some r \<Longrightarrow> ?case"
    by (rule exI [of _ "[]"], rule exI [of _ "c # cs"]) simp
  show ?case
  proof (cases "ok a c")
    case False
    with Cons.prems have "match_at p (c # cs) = Some r" by simp
    then show ?thesis by (rule here)
  next
    case True
    show ?thesis
    proof (cases "match_at (Star a # p) cs")
      case None
      with True Cons.prems have "match_at p (c # cs) = Some r" by simp
      then show ?thesis by (rule here)
    next
      case (Some r')
      with True Cons.prems have "match_at (Star a # p) cs = Some r" by simp
      from Cons.IH [OF this] obtain u v where
        uv: "cs = u @ v" "\<forall>x \<in> set u. ok a x" "match_at p v = Some r"
        by blast
      show ?thesis
        by (rule exI [of _ "c # u"], rule exI [of _ v]) (use uv True in simp)
    qed
  qed
qed

lemma match_Lazy_D:
  "match_at (Lazy a # p) s = Some r
     \<Longrightarrow> \<exists>u v. s = u @ v \<and> (\<forall>x \<in> set u. ok a x) \<and> match_at p v = Some r"
proof (induction s)
  case Nil
  then show ?case by simp
next
  case (Cons c cs)
  show ?case
  proof (cases "match_at p (c # cs)")
    case None
    with Cons.prems have h: "ok a c" "match_at (Lazy a # p) cs = Some r"
      by (auto split: if_splits)
    from Cons.IH [OF h(2)] obtain u v where
      uv: "cs = u @ v" "\<forall>x \<in> set u. ok a x" "match_at p v = Some r"
      by blast
    show ?thesis
      by (rule exI [of _ "c # u"], rule exI [of _ v]) (use uv h in simp)
  next
    case (Some r')
    with Cons.prems have "match_at p (c # cs) = Some r" by simp
    then show ?thesis
      by (intro exI [of _ "[]"] exI [of _ "c # cs"]) simp
  qed
qed

lemma match_lits_D:
  "match_at (lits w @ q) s = Some r \<Longrightarrow> \<exists>s'. s = w @ s' \<and> match_at q s' = Some r"
  by (auto simp: match_at_lits prefix_def split: if_splits)

lemma close_tail_D:
  assumes "match_at close_tail s = Some r"
  shows "\<exists>ws. s = ''*/'' @ ws @ CHR ''\<newline>'' # r \<and> (\<forall>x \<in> set ws. isspace x)"
proof -
  from assms obtain s1 where s1: "s = ''*/'' @ s1"
      "match_at [Star Space, One (Lit CHR ''\<newline>'')] s1 = Some r"
    unfolding close_tail_def by (blast dest: match_lits_D)
  from match_Star_D [OF s1(2)] obtain ws v where
    w: "s1 = ws @ v" "\<forall>x \<in> set ws. ok Space x" "match_at [One (Lit CHR ''\<newline>'')] v = Some r"
    by blast
  from match_One_D [OF w(3)] have "v = CHR ''\<newline>'' # r" by auto
  with s1 w show ?thesis by auto
qed

lemma token_tail_D:
  assumes "match_at token_tail s = Some r"
  shows "\<exists>tok b2 ws. s = tok @ b2 @ ''*/'' @ ws @ CHR ''\<newline>'' # r
           \<and> (tok = ''Copyright'' \<or> tok = ''copyright'') \<and> (\<forall>x \<in> set ws. isspace x)"
proof -
  from assms obtain x s1 where x: "s = x # s1" "x = CHR ''C'' \<or> x = CHR ''c''"
      "match_at (lits ''opyright'' @ Lazy Any # close_tail) s1 = Some r"
    unfolding token_tail_def by (auto dest!: match_One_D)
  from match_lits_D [OF x(3)] obtain s2 where
    s2: "s1 = ''opyright'' @ s2" "match_at (Lazy Any # close_tail) s2 = Some r"
    by blast
  from match_Lazy_D [OF s2(2)] obtain b2 v where
    v: "s2 = b2 @ v" "match_at close_tail v = Some r"
    by blast
  from close_tail_D [OF v(2)] obtain ws where
    ws: "v = ''*/'' @ ws @ CHR ''\<newline>'' # r" "\<forall>x \<in> set ws. isspace x"
    by blast
  have "s = (x # ''opyright'') @ b2 @ ''*/'' @ ws @ CHR ''\<newline>'' # r"
    using x(1) s2(1) v(1) ws(1) by simp
  moreover have "x # ''opyright'' = ''Copyright'' \<or> x # ''opyright'' = ''copyright''"
    using x(2) by auto
  ultimately show ?thesis using ws(2) by blast
qed

lemma copyright_match_shape:
  assumes "match_at COPYRIGHT_PATTERN s = Some r"
  shows "\<exists>opener ws1 b1 tok b2 ws2.
           s = opener @ ws1 @ CHR ''\<newline>'' # b1 @ tok @ b2 @ ''*/'' @ ws2 @ CHR ''\<newline>'' # r
           \<and> (opener = ''/*'' \<or> opener = ''/**'')
           \<and> (\<forall>x \<in> set ws1. isspace x)
           \<and> (tok = ''Copyright'' \<or> tok = ''copyright'')
           \<and> (\<forall>x \<in> set ws2. isspace x)"
proof -
  let ?G = "Star Space # One (Lit CHR ''\<newline>'') # Lazy Any # token_tail"
  from assms obtain s1 where s1: "s = ''/*'' @ s1" "match_at (Opt (Lit CHR ''*'') # ?G) s1 = Some r"
    unfolding COPYRIGHT_PATTERN_split by (auto dest!: match_One_D)
  from match_Opt_D [OF s1(2)]
  have "\<exists>opener s2. s = opener @ s2 \<and> (opener = ''/*'' \<or> opener = ''/**'') \<and> match_at ?G s2 = Some r"
  proof
    assume "match_at ?G s1 = Some r"
    then show ?thesis
      using s1(1) by (intro exI [of _ "''/*''"] exI [of _ s1]) simp
  next
    assume "\<exists>x s'. s1 = x # s' \<and> ok (Lit CHR ''*'') x \<and> match_at ?G s' = Some r"
    then obtain s' where "s1 = CHR ''*'' # s'" "match_at ?G s' = Some r" by auto
    then show ?thesis
      using s1(1) by (intro exI [of _ "''/**''"] exI [of _ s']) simp
  qed
  then obtain opener s2 where
    o: "s = opener @ s2" "opener = ''/*'' \<or> opener = ''/**''" "match_at ?G s2 = Some r"
    by blast
  from match_Star_D [OF o(3)] obtain ws1 s3 where
    w1: "s2 = ws1 @ s3" "\<forall>x \<in> set ws1. ok Space x"
        "match_at (One (Lit CHR ''\<newline>'') # Lazy Any # token_tail) s3 = Some r"
    by blast
  from match_One_D [OF w1(3)] obtain s4 where
    s4: "s3 = CHR ''\<newline>'' # s4" "match_at (Lazy Any # token_tail) s4 = Some r"
    by auto
  from match_Lazy_D [OF s4(2)] obtain b1 s5 where
    b1: "s4 = b1 @ s5" "match_at token_tail s5 = Some r"
    by blast
  from token_tail_D [OF b1(2)] obtain tok b2 ws2 where
    t: "s5 = tok @ b2 @ ''*/'' @ ws2 @ CHR ''\<newline>'' # r"
       "tok = ''Copyright'' \<or> tok = ''copyright''" "\<forall>x \<in> set ws2. isspace x"
    by blast
  have "s = opener @ ws1 @ CHR ''\<newline>'' # b1 @ tok @ b2 @ ''*/'' @ ws2 @ CHR ''\<newline>'' # r"
    using o(1) w1(1) s4(1) b1(1) t(1) by simp
  moreover have "\<forall>x \<in> set ws1. isspace x" using w1(2) by simp
  ultimately have "s = opener @ ws1 @ CHR ''\<newline>'' # b1 @ tok @ b2 @ ''*/'' @ ws2 @ CHR ''\<newline>'' # r
           \<and> (opener = ''/*'' \<or> opener = ''/**'')
           \<and> (\<forall>x \<in> set ws1. isspace x)
           \<and> (tok = ''Copyright'' \<or> tok = ''copyright'')
           \<and> (\<forall>x \<in> set ws2. isspace x)"
    using o(2) t(2,3) by (simp only: simp_thms)
  then show ?thesis
    by (rule_tac x = opener in exI, rule_tac x = ws1 in exI, rule_tac x = b1 in exI,
        rule_tac x = tok in exI, rule_tac x = b2 in exI, rule_tac x = ws2 in exI)
qed



text \<open>A comment whose body holds the word and no close.\<close>

lemma str_in_part: "str_in w b \<Longrightarrow> str_in w (a @ b @ c)"
proof -
  assume "str_in w b"
  then obtain p r where "b = p @ w @ r" by (auto simp: str_in_iff)
  then have "a @ b @ c = (a @ p) @ w @ (r @ c)" by simp
  then show ?thesis by (simp only: str_in_appendI)
qed

lemma first_token:
  assumes "str_in ''Copyright'' body \<or> str_in ''copyright'' body"
  shows "\<exists>b1 tok b2. body = b1 @ tok @ b2 \<and> (tok = ''Copyright'' \<or> tok = ''copyright'')
           \<and> \<not> str_in ''Copyright'' b1 \<and> \<not> str_in ''copyright'' b1"
  using assms
proof (induction body)
  case Nil
  then show ?case by simp
next
  case (Cons x xs)
  show ?case
  proof (cases "prefix ''Copyright'' (x # xs) \<or> prefix ''copyright'' (x # xs)")
    case True
    then have "\<exists>tok b2. x # xs = tok @ b2 \<and> (tok = ''Copyright'' \<or> tok = ''copyright'')"
    proof
      assume "prefix ''Copyright'' (x # xs)"
      then obtain b2 where "x # xs = ''Copyright'' @ b2" unfolding prefix_def by blast
      then show ?thesis
        by (rule_tac x = "''Copyright''" in exI, rule_tac x = b2 in exI) simp
    next
      assume "prefix ''copyright'' (x # xs)"
      then obtain b2 where "x # xs = ''copyright'' @ b2" unfolding prefix_def by blast
      then show ?thesis
        by (rule_tac x = "''copyright''" in exI, rule_tac x = b2 in exI) simp
    qed
    then obtain tok b2 where "x # xs = tok @ b2" "tok = ''Copyright'' \<or> tok = ''copyright''"
      by blast
    then have "x # xs = [] @ tok @ b2 \<and> (tok = ''Copyright'' \<or> tok = ''copyright'')
           \<and> \<not> str_in ''Copyright'' [] \<and> \<not> str_in ''copyright'' []"
      by simp
    then show ?thesis by (rule_tac x = "[]" in exI, rule_tac x = tok in exI, rule_tac x = b2 in exI)
  next
    case False
    from Cons.prems
    have "(prefix ''Copyright'' (x # xs) \<or> str_in ''Copyright'' xs)
        \<or> (prefix ''copyright'' (x # xs) \<or> str_in ''copyright'' xs)"
      by (simp only: str_in.simps)
    with False have "str_in ''Copyright'' xs \<or> str_in ''copyright'' xs" by blast
    from Cons.IH [OF this] obtain b1 tok b2 where
      h: "xs = b1 @ tok @ b2" "tok = ''Copyright'' \<or> tok = ''copyright''"
         "\<not> str_in ''Copyright'' b1" "\<not> str_in ''copyright'' b1"
      by blast
    have n: "\<not> prefix w (x # b1)" if "\<not> prefix w (x # xs)" for w
    proof
      assume "prefix w (x # b1)"
      then have "prefix w ((x # b1) @ tok @ b2)" by (rule prefix_prefix)
      with h(1) that show False by simp
    qed
    from False have f: "\<not> prefix ''Copyright'' (x # xs)" "\<not> prefix ''copyright'' (x # xs)"
      by blast+
    have "\<not> prefix ''Copyright'' (x # b1)" using f(1) by (rule n)
    moreover have "\<not> prefix ''copyright'' (x # b1)" using f(2) by (rule n)
    ultimately have "\<not> prefix ''Copyright'' (x # b1)" "\<not> prefix ''copyright'' (x # b1)"
      by blast+
    with h(3,4) have "\<not> str_in ''Copyright'' (x # b1)" "\<not> str_in ''copyright'' (x # b1)"
      by (simp_all only: str_in.simps simp_thms)
    with h(1,2) have "x # xs = (x # b1) @ tok @ b2 \<and> (tok = ''Copyright'' \<or> tok = ''copyright'')
           \<and> \<not> str_in ''Copyright'' (x # b1) \<and> \<not> str_in ''copyright'' (x # b1)"
      by simp
    then show ?thesis
      by (rule_tac x = "x # b1" in exI, rule_tac x = tok in exI, rule_tac x = b2 in exI)
  qed
qed

lemma copyright_comment_match:
  assumes "opener = ''/*'' \<or> opener = ''/**''"
    and "\<forall>x \<in> set ws1. isspace x"
    and "str_in ''Copyright'' body \<or> str_in ''copyright'' body"
    and "\<not> str_in ''*/'' body"
    and "\<forall>x \<in> set ws2. isspace x" and "CHR ''\<newline>'' \<notin> set (takeWhile isspace rest)"
  shows "match_at COPYRIGHT_PATTERN
           (opener @ ws1 @ CHR ''\<newline>'' # body @ ''*/'' @ ws2 @ CHR ''\<newline>'' # rest) = Some rest"
proof -
  from first_token [OF assms(3)] obtain b1 tok b2 where
    h: "body = b1 @ tok @ b2" "tok = ''Copyright'' \<or> tok = ''copyright''"
       "\<not> str_in ''Copyright'' b1" "\<not> str_in ''copyright'' b1"
    by blast
  have "\<not> str_in ''*/'' b2"
  proof
    assume "str_in ''*/'' b2"
    then have "str_in ''*/'' ((b1 @ tok) @ b2 @ [])" by (rule str_in_part)
    with h(1) assms(4) show False by simp
  qed
  from copyright_block_match [OF assms(1,2) h(3,4,2) this assms(5,6)]
  show ?thesis by (simp add: h(1))
qed

text \<open>
  Claim C4, as amended. The copyright pattern is used only when the AGPL pattern has no
  match: when the AGPL pattern matches, the output is the substitution for that pattern
  alone. A match of the copyright pattern begins with \<^verbatim>\<open>/*\<close> or \<^verbatim>\<open>/**\<close>, goes on with
  whitespace and a newline, holds \<^verbatim>\<open>Copyright\<close> or \<^verbatim>\<open>copyright\<close> (these two spellings
  only), and ends with \<^verbatim>\<open>*/\<close>, whitespace and a newline. For a content on which the
  AGPL pattern has no match, a comment block that begins with \<^verbatim>\<open>/*\<close> or \<^verbatim>\<open>/**\<close>,
  whitespace and a newline, holds the word in one of the two spellings and ends at its
  first \<^verbatim>\<open>*/\<close>, followed by whitespace up to the last newline of that whitespace, is
  matched as a whole when it stands behind a text without a slash, and exactly that
  block is replaced by the replacement header and one blank line; the text before it is
  kept and the text after it is treated in the same way.
\<close>

theorem copyright_blocks:
  "(search AGPL_PATTERN c \<longrightarrow> update_content c = sub AGPL_PATTERN (NEW_HEADER @ ''\<newline>\<newline>'') c)
   \<and> (match_at COPYRIGHT_PATTERN s = Some r \<longrightarrow>
        (\<exists>opener ws1 b1 tok b2 ws2.
           s = opener @ ws1 @ CHR ''\<newline>'' # b1 @ tok @ b2 @ ''*/'' @ ws2 @ CHR ''\<newline>'' # r
           \<and> (opener = ''/*'' \<or> opener = ''/**'')
           \<and> (\<forall>x \<in> set ws1. isspace x)
           \<and> (tok = ''Copyright'' \<or> tok = ''copyright'')
           \<and> (\<forall>x \<in> set ws2. isspace x)))
   \<and> (blk = opener @ ws1 @ CHR ''\<newline>'' # body @ ''*/'' @ ws2 @ ''\<newline>''
        \<and> (opener = ''/*'' \<or> opener = ''/**'')
        \<and> (\<forall>x \<in> set ws1. isspace x)
        \<and> (str_in ''Copyright'' body \<or> str_in ''copyright'' body)
        \<and> \<not> str_in ''*/'' body
        \<and> (\<forall>x \<in> set ws2. isspace x)
        \<and> CHR ''\<newline>'' \<notin> set (takeWhile isspace rest)
        \<and> CHR ''/'' \<notin> set pre
        \<and> \<not> search AGPL_PATTERN (pre @ blk @ rest)
      \<longrightarrow> match_at COPYRIGHT_PATTERN (blk @ rest) = Some rest
          \<and> update_content (pre @ blk @ rest)
              = pre @ (NEW_HEADER @ ''\<newline>\<newline>'') @ sub COPYRIGHT_PATTERN (NEW_HEADER @ ''\<newline>\<newline>'') rest)"
proof -
  have 1: "search AGPL_PATTERN c \<longrightarrow> update_content c = sub AGPL_PATTERN (NEW_HEADER @ ''\<newline>\<newline>'') c"
    by (simp add: update_content_def)
  have 2: "match_at COPYRIGHT_PATTERN s = Some r \<longrightarrow>
        (\<exists>opener ws1 b1 tok b2 ws2.
           s = opener @ ws1 @ CHR ''\<newline>'' # b1 @ tok @ b2 @ ''*/'' @ ws2 @ CHR ''\<newline>'' # r
           \<and> (opener = ''/*'' \<or> opener = ''/**'')
           \<and> (\<forall>x \<in> set ws1. isspace x)
           \<and> (tok = ''Copyright'' \<or> tok = ''copyright'')
           \<and> (\<forall>x \<in> set ws2. isspace x))"
    using copyright_match_shape by blast
  have 3: "blk = opener @ ws1 @ CHR ''\<newline>'' # body @ ''*/'' @ ws2 @ ''\<newline>''
        \<and> (opener = ''/*'' \<or> opener = ''/**'')
        \<and> (\<forall>x \<in> set ws1. isspace x)
        \<and> (str_in ''Copyright'' body \<or> str_in ''copyright'' body)
        \<and> \<not> str_in ''*/'' body
        \<and> (\<forall>x \<in> set ws2. isspace x)
        \<and> CHR ''\<newline>'' \<notin> set (takeWhile isspace rest)
        \<and> CHR ''/'' \<notin> set pre
        \<and> \<not> search AGPL_PATTERN (pre @ blk @ rest)
      \<longrightarrow> match_at COPYRIGHT_PATTERN (blk @ rest) = Some rest
          \<and> update_content (pre @ blk @ rest)
              = pre @ (NEW_HEADER @ ''\<newline>\<newline>'') @ sub COPYRIGHT_PATTERN (NEW_HEADER @ ''\<newline>\<newline>'') rest"
  proof
    assume h: "blk = opener @ ws1 @ CHR ''\<newline>'' # body @ ''*/'' @ ws2 @ ''\<newline>''
        \<and> (opener = ''/*'' \<or> opener = ''/**'')
        \<and> (\<forall>x \<in> set ws1. isspace x)
        \<and> (str_in ''Copyright'' body \<or> str_in ''copyright'' body)
        \<and> \<not> str_in ''*/'' body
        \<and> (\<forall>x \<in> set ws2. isspace x)
        \<and> CHR ''\<newline>'' \<notin> set (takeWhile isspace rest)
        \<and> CHR ''/'' \<notin> set pre
        \<and> \<not> search AGPL_PATTERN (pre @ blk @ rest)"
    then have "match_at COPYRIGHT_PATTERN
           (opener @ ws1 @ CHR ''\<newline>'' # body @ ''*/'' @ ws2 @ CHR ''\<newline>'' # rest) = Some rest"
      by (intro copyright_comment_match) blast+
    with h have m: "match_at COPYRIGHT_PATTERN (blk @ rest) = Some rest" by simp
    then have "search COPYRIGHT_PATTERN (pre @ blk @ rest)"
      using search_appendI [OF search_match, of COPYRIGHT_PATTERN "blk @ rest" pre] by simp
    moreover from h have "\<not> search AGPL_PATTERN (pre @ blk @ rest)" by blast
    ultimately have "update_content (pre @ blk @ rest)
        = sub COPYRIGHT_PATTERN (NEW_HEADER @ ''\<newline>\<newline>'') (pre @ blk @ rest)"
      by (simp only: update_content_def if_True if_False)
    also have "\<dots> = pre @ (NEW_HEADER @ ''\<newline>\<newline>'') @ sub COPYRIGHT_PATTERN (NEW_HEADER @ ''\<newline>\<newline>'') rest"
      using h m by (intro sub_at_match) auto
    finally show "match_at COPYRIGHT_PATTERN (blk @ rest) = Some rest
          \<and> update_content (pre @ blk @ rest)
              = pre @ (NEW_HEADER @ ''\<newline>\<newline>'') @ sub COPYRIGHT_PATTERN (NEW_HEADER @ ''\<newline>\<newline>'') rest"
      using m by simp
  qed
  from 1 2 3 show ?thesis by blast
qed

theorem copyright_blocks_witness:
  "search AGPL_PATTERN ''/*\<newline> * CIV.IQ\<newline> * GNU Affero General Public License\<newline> */\<newline>''
   \<and> update_content ''/*\<newline> * CIV.IQ\<newline> * GNU Affero General Public License\<newline> */\<newline>''
       = sub AGPL_PATTERN (NEW_HEADER @ ''\<newline>\<newline>'')
           ''/*\<newline> * CIV.IQ\<newline> * GNU Affero General Public License\<newline> */\<newline>''
   \<and> match_at COPYRIGHT_PATTERN ''/*\<newline> * Copyright me\<newline> */\<newline>'' = Some []
   \<and> (\<exists>opener ws1 b1 tok b2 ws2.
         ''/*\<newline> * Copyright me\<newline> */\<newline>''
           = opener @ ws1 @ CHR ''\<newline>'' # b1 @ tok @ b2 @ ''*/'' @ ws2 @ CHR ''\<newline>'' # []
         \<and> (opener = ''/*'' \<or> opener = ''/**'')
         \<and> (\<forall>x \<in> set ws1. isspace x)
         \<and> (tok = ''Copyright'' \<or> tok = ''copyright'')
         \<and> (\<forall>x \<in> set ws2. isspace x))
   \<and> \<not> search AGPL_PATTERN (''const x = 1;\<newline>'' @ ''/**\<newline> * Copyright (c) me\<newline> */\<newline>'' @ ''  let y;'')
   \<and> CHR ''/'' \<notin> set ''const x = 1;\<newline>''
   \<and> str_in ''Copyright'' '' * Copyright (c) me\<newline> ''
   \<and> \<not> str_in ''*/'' '' * Copyright (c) me\<newline> ''
   \<and> CHR ''\<newline>'' \<notin> set (takeWhile isspace ''  let y;'')
   \<and> match_at COPYRIGHT_PATTERN (''/**\<newline> * Copyright (c) me\<newline> */\<newline>'' @ ''  let y;'') = Some ''  let y;''
   \<and> update_content (''const x = 1;\<newline>'' @ ''/**\<newline> * Copyright (c) me\<newline> */\<newline>'' @ ''  let y;'')
       = ''const x = 1;\<newline>'' @ NEW_HEADER @ ''\<newline>\<newline>'' @ ''  let y;''"
proof -
  let ?a = "''/*\<newline> * CIV.IQ\<newline> * GNU Affero General Public License\<newline> */\<newline>''"
  let ?s = "''/*\<newline> * Copyright me\<newline> */\<newline>''"
  let ?blk = "''/**\<newline> * Copyright (c) me\<newline> */\<newline>''"
  note T = copyright_blocks [of ?a ?s "[]" ?blk "''/**''" "[]" "'' * Copyright (c) me\<newline> ''" "[]"
      "''  let y;''" "''const x = 1;\<newline>''"]
  have 1: "search AGPL_PATTERN ?a"
    by (simp add: AGPL_PATTERN_def lits_def isspace_def)
  have 2: "match_at COPYRIGHT_PATTERN ?s = Some []"
    by (simp add: COPYRIGHT_PATTERN_def lits_def isspace_def)
  have 3: "\<not> search AGPL_PATTERN (''const x = 1;\<newline>'' @ ?blk @ ''  let y;'')"
    by (simp add: AGPL_PATTERN_def lits_def isspace_def)
  have 5: "str_in ''Copyright'' '' * Copyright (c) me\<newline> ''"
      "\<not> str_in ''*/'' '' * Copyright (c) me\<newline> ''"
      "CHR ''\<newline>'' \<notin> set (takeWhile isspace ''  let y;'')"
      "CHR ''/'' \<notin> set ''const x = 1;\<newline>''"
    by (simp_all add: isspace_def)
  have 6: "sub COPYRIGHT_PATTERN (NEW_HEADER @ ''\<newline>\<newline>'') ''  let y;'' = ''  let y;''"
    by (simp add: COPYRIGHT_PATTERN_def lits_def)
  have hyp: "?blk = ''/**'' @ [] @ CHR ''\<newline>'' # '' * Copyright (c) me\<newline> '' @ ''*/'' @ [] @ ''\<newline>''
        \<and> (''/**'' = ''/*'' \<or> ''/**'' = ''/**'')
        \<and> (\<forall>x \<in> set []. isspace x)
        \<and> (str_in ''Copyright'' '' * Copyright (c) me\<newline> ''
             \<or> str_in ''copyright'' '' * Copyright (c) me\<newline> '')
        \<and> \<not> str_in ''*/'' '' * Copyright (c) me\<newline> ''
        \<and> (\<forall>x \<in> set []. isspace x)
        \<and> CHR ''\<newline>'' \<notin> set (takeWhile isspace ''  let y;'')
        \<and> CHR ''/'' \<notin> set ''const x = 1;\<newline>''
        \<and> \<not> search AGPL_PATTERN (''const x = 1;\<newline>'' @ ?blk @ ''  let y;'')"
    using 3 5 by simp
  have a: "update_content ?a = sub AGPL_PATTERN (NEW_HEADER @ ''\<newline>\<newline>'') ?a"
    by (rule mp [OF T [THEN conjunct1] 1])
  have b: "\<exists>opener ws1 b1 tok b2 ws2.
         ?s = opener @ ws1 @ CHR ''\<newline>'' # b1 @ tok @ b2 @ ''*/'' @ ws2 @ CHR ''\<newline>'' # []
         \<and> (opener = ''/*'' \<or> opener = ''/**'')
         \<and> (\<forall>x \<in> set ws1. isspace x)
         \<and> (tok = ''Copyright'' \<or> tok = ''copyright'')
         \<and> (\<forall>x \<in> set ws2. isspace x)"
    by (rule mp [OF T [THEN conjunct2, THEN conjunct1] 2])
  have c: "match_at COPYRIGHT_PATTERN (?blk @ ''  let y;'') = Some ''  let y;''
      \<and> update_content (''const x = 1;\<newline>'' @ ?blk @ ''  let y;'')
          = ''const x = 1;\<newline>'' @ (NEW_HEADER @ ''\<newline>\<newline>'')
              @ sub COPYRIGHT_PATTERN (NEW_HEADER @ ''\<newline>\<newline>'') ''  let y;''"
    by (rule mp [OF T [THEN conjunct2, THEN conjunct2] hyp])
  from c have c1: "match_at COPYRIGHT_PATTERN (?blk @ ''  let y;'') = Some ''  let y;''"
    by (rule conjunct1)
  from c have c2: "update_content (''const x = 1;\<newline>'' @ ?blk @ ''  let y;'')
          = ''const x = 1;\<newline>'' @ NEW_HEADER @ ''\<newline>\<newline>'' @ ''  let y;''"
    unfolding 6 by simp
  show ?thesis
    by (intro conjI 1 a 2 b 3 5 c1 c2)
qed

text \<open>
  The claim as stated fails: a comment block whose copyright word is written in capitals
  is not matched by either pattern, and the header is put in front of it instead.
\<close>

theorem copyright_blocks_counterexample:
  "\<not> search AGPL_PATTERN ''/*\<newline> * COPYRIGHT me\<newline> */\<newline>''
   \<and> \<not> search COPYRIGHT_PATTERN ''/*\<newline> * COPYRIGHT me\<newline> */\<newline>''
   \<and> update_content ''/*\<newline> * COPYRIGHT me\<newline> */\<newline>''
       = NEW_HEADER @ ''\<newline>\<newline>'' @ ''/*\<newline> * COPYRIGHT me\<newline> */\<newline>''"
  by (simp add: update_content_def AGPL_PATTERN_def COPYRIGHT_PATTERN_def lits_def isspace_def use_client_def)

subsection \<open>Running twice\<close>

lemma OLD_MIT_HEADER_head: "\<exists>w. OLD_MIT_HEADER = CHR ''/'' # CHR ''*'' # CHR ''*'' # w"
  by (simp add: OLD_MIT_HEADER_def)

lemma old_not_in_new_generic:
  "\<not> str_in (CHR ''/'' # CHR ''*'' # CHR ''*'' # w) c
     \<Longrightarrow> \<not> str_in (CHR ''/'' # CHR ''*'' # CHR ''*'' # w) (NEW_AGPL_HEADER @ ''\<newline>\<newline>'' @ c)"
  by (simp add: NEW_AGPL_HEADER_def)

lemma old_not_in_added:
  "\<not> str_in OLD_MIT_HEADER c \<Longrightarrow> \<not> str_in OLD_MIT_HEADER (NEW_AGPL_HEADER @ ''\<newline>\<newline>'' @ c)"
  using OLD_MIT_HEADER_head old_not_in_new_generic by metis

lemma old_not_in_new_slash:
  "\<not> str_in (CHR ''/'' # CHR ''*'' # CHR ''*'' # w) (CHR ''/'' # c)
     \<Longrightarrow> \<not> str_in (CHR ''/'' # CHR ''*'' # CHR ''*'' # w) (NEW_AGPL_HEADER @ CHR ''/'' # c)"
  by (simp add: NEW_AGPL_HEADER_def)

lemma str_in_take: "length p + length w \<le> n \<Longrightarrow> str_in w (take n (p @ w @ r))"
proof -
  assume "length p + length w \<le> n"
  then have "take n (p @ w @ r) = p @ w @ take (n - length p - length w) r" by simp
  then show ?thesis by (simp only: str_in_appendI)
qed

lemma copyright_in_added: "\<not> no_copyright (NEW_AGPL_HEADER @ ''\<newline>\<newline>'' @ c)"
proof -
  have "NEW_AGPL_HEADER @ ''\<newline>\<newline>'' @ c
      = ''/*\<newline> * CIV.IQ - Civic Information Hub\<newline> * '' @ ''Copyright''
          @ (drop 49 NEW_AGPL_HEADER @ ''\<newline>\<newline>'' @ c)"
    by (simp add: NEW_AGPL_HEADER_def)
  moreover have "str_in ''Copyright'' (take 1000
      (''/*\<newline> * CIV.IQ - Civic Information Hub\<newline> * '' @ ''Copyright''
          @ (drop 49 NEW_AGPL_HEADER @ ''\<newline>\<newline>'' @ c)))"
    by (rule str_in_take) simp
  ultimately show ?thesis by (simp only: no_copyright_def) blast
qed

lemma process_content_stable:
  assumes "\<not> str_in OLD_MIT_HEADER c"
  shows "process_content (process_content c) = process_content c"
proof (cases "no_copyright c")
  case True
  with assms have "process_content c = NEW_AGPL_HEADER @ ''\<newline>\<newline>'' @ c"
    by (simp add: process_content_def)
  moreover have "process_content (NEW_AGPL_HEADER @ ''\<newline>\<newline>'' @ c) = NEW_AGPL_HEADER @ ''\<newline>\<newline>'' @ c"
    using old_not_in_added [OF assms] copyright_in_added [of c]
    by (simp only: process_content_def if_False)
  ultimately show ?thesis by simp
next
  case False
  with assms show ?thesis by (simp add: process_content_def)
qed


text \<open>After a replacement: where the old header text could still stand.\<close>

lemma OLD_MIT_HEADER_slashes:
  "\<exists>mid. OLD_MIT_HEADER = CHR ''/'' # mid @ ''/'' \<and> CHR ''/'' \<notin> set mid"
  by (rule exI [of _ "butlast (tl OLD_MIT_HEADER)"]) (simp add: OLD_MIT_HEADER_def)

lemma NEW_AGPL_HEADER_head: "\<exists>n. NEW_AGPL_HEADER = CHR ''/'' # n"
  by (rule exI [of _ "tl NEW_AGPL_HEADER"]) (simp add: NEW_AGPL_HEADER_def)

lemma old_in_new_tail_generic:
  "str_in (CHR ''/'' # CHR ''*'' # CHR ''*'' # w) (NEW_AGPL_HEADER @ r)
     = str_in (CHR ''/'' # CHR ''*'' # CHR ''*'' # w) (CHR ''/'' # r)"
  by (simp add: NEW_AGPL_HEADER_def)

lemma old_in_new_tail:
  "str_in OLD_MIT_HEADER (NEW_AGPL_HEADER @ r) = str_in OLD_MIT_HEADER (CHR ''/'' # r)"
  using OLD_MIT_HEADER_head old_in_new_tail_generic by metis

lemma str_in_behind: "str_in w b \<Longrightarrow> str_in w (a @ b)"
  using str_in_part [of w b a "[]"] by simp

lemma str_in_before: "str_in w a \<Longrightarrow> str_in w (a @ b)"
  using str_in_part [of w a "[]" b] by simp

lemma old_not_spanning:
  assumes a: "\<not> str_in OLD_MIT_HEADER (p @ butlast OLD_MIT_HEADER)"
    and b: "\<not> str_in OLD_MIT_HEADER (CHR ''/'' # s)"
  shows "\<not> str_in OLD_MIT_HEADER (p @ CHR ''/'' # s)"
proof
  assume "str_in OLD_MIT_HEADER (p @ CHR ''/'' # s)"
  then obtain u v where uv: "p @ CHR ''/'' # s = u @ OLD_MIT_HEADER @ v"
    by (auto simp: str_in_iff)
  obtain mid where mid: "OLD_MIT_HEADER = CHR ''/'' # mid @ ''/''" "CHR ''/'' \<notin> set mid"
    using OLD_MIT_HEADER_slashes by blast
  have inp: "\<not> str_in OLD_MIT_HEADER p"
    using a str_in_before by blast
  from uv consider
      (left) us where "p = u @ us" "us @ CHR ''/'' # s = OLD_MIT_HEADER @ v"
    | (right) us where "p @ us = u" "CHR ''/'' # s = us @ OLD_MIT_HEADER @ v"
    by (auto simp: append_eq_append_conv2)
  then show False
  proof cases
    case right
    then have "str_in OLD_MIT_HEADER (CHR ''/'' # s)" by (simp only: str_in_appendI)
    with b show ?thesis by simp
  next
    case left
    from left(2) consider
        (inside) ws where "us = OLD_MIT_HEADER @ ws"
      | (over) ws where "us @ ws = OLD_MIT_HEADER" "CHR ''/'' # s = ws @ v"
      by (auto simp: append_eq_append_conv2)
    then show ?thesis
    proof cases
      case inside
      with left(1) have "p = u @ OLD_MIT_HEADER @ ws" by simp
      then have "str_in OLD_MIT_HEADER p" by (simp only: str_in_appendI)
      with inp show ?thesis by simp
    next
      case over
      show ?thesis
      proof (cases ws)
        case Nil
        with over(1) left(1) have "p = u @ OLD_MIT_HEADER @ []" by simp
        then have "str_in OLD_MIT_HEADER p" by (simp only: str_in_appendI)
        with inp show ?thesis by simp
      next
        case (Cons y ws')
        with over(2) have y: "y = CHR ''/''" by simp
        show ?thesis
        proof (cases us)
          case Nil
          with over have "CHR ''/'' # s = [] @ OLD_MIT_HEADER @ v" by simp
          then have "str_in OLD_MIT_HEADER (CHR ''/'' # s)" by (simp only: str_in_appendI)
          with b show ?thesis by simp
        next
          case us: (Cons z us')
          have "us @ ws = CHR ''/'' # mid @ ''/''"
            using over(1) mid(1) by (rule trans)
          then have e: "us' @ CHR ''/'' # ws' = mid @ ''/''"
            using Cons y us by simp
          have "ws' = []"
          proof (rule ccontr)
            assume "ws' \<noteq> []"
            then obtain ws'' l where "ws' = ws'' @ [l]" by (metis rev_exhaust)
            with e have "(us' @ CHR ''/'' # ws'') @ [l] = mid @ ''/''" by simp
            then have "us' @ CHR ''/'' # ws'' = mid" by (simp only: append1_eq_conv)
            with mid(2) show False by auto
          qed
          with e have "us' = mid" by simp
          moreover from \<open>us @ ws = CHR ''/'' # mid @ ''/''\<close> us have "z = CHR ''/''" by simp
          ultimately have usm: "us = CHR ''/'' # mid" using us by simp
          have bl: "butlast OLD_MIT_HEADER = CHR ''/'' # mid"
            by (subst mid(1)) (simp add: butlast_append)
          have "p @ butlast OLD_MIT_HEADER = u @ (CHR ''/'' # mid @ ''/'') @ mid"
            using left(1) usm bl by simp
          then have "p @ butlast OLD_MIT_HEADER = u @ OLD_MIT_HEADER @ mid"
            using mid(1) by (simp only:)
          then have "str_in OLD_MIT_HEADER (p @ butlast OLD_MIT_HEADER)"
            by (simp only: str_in_appendI)
          with a show ?thesis by simp
        qed
      qed
    qed
  qed
qed

lemma copyright_in_replaced:
  assumes "length p \<le> 951"
  shows "\<not> no_copyright (p @ NEW_AGPL_HEADER @ r)"
proof -
  have "p @ NEW_AGPL_HEADER @ r
      = (p @ ''/*\<newline> * CIV.IQ - Civic Information Hub\<newline> * '') @ ''Copyright''
          @ (drop 49 NEW_AGPL_HEADER @ r)"
    by (simp add: NEW_AGPL_HEADER_def)
  moreover have "str_in ''Copyright'' (take 1000
      ((p @ ''/*\<newline> * CIV.IQ - Civic Information Hub\<newline> * '') @ ''Copyright''
          @ (drop 49 NEW_AGPL_HEADER @ r)))"
    using assms by (intro str_in_take) simp
  ultimately show ?thesis by (simp only: no_copyright_def) blast
qed

lemma process_content_replaced:
  assumes "\<not> str_in OLD_MIT_HEADER (p @ butlast OLD_MIT_HEADER)"
  shows "process_content (p @ OLD_MIT_HEADER @ r) = p @ NEW_AGPL_HEADER @ r"
    and "(process_content (p @ NEW_AGPL_HEADER @ r) = p @ NEW_AGPL_HEADER @ r)
          = (\<not> str_in OLD_MIT_HEADER (CHR ''/'' # r) \<and> \<not> no_copyright (p @ NEW_AGPL_HEADER @ r))"
proof -
  show "process_content (p @ OLD_MIT_HEADER @ r) = p @ NEW_AGPL_HEADER @ r"
    using assms
    by (simp add: process_content_def str_in_appendI replace_first_at OLD_MIT_HEADER_not_Nil)
  obtain n where n: "NEW_AGPL_HEADER = CHR ''/'' # n"
    using NEW_AGPL_HEADER_head by blast
  have "str_in OLD_MIT_HEADER (p @ NEW_AGPL_HEADER @ r) = str_in OLD_MIT_HEADER (CHR ''/'' # r)"
  proof
    assume "str_in OLD_MIT_HEADER (CHR ''/'' # r)"
    then have "str_in OLD_MIT_HEADER (NEW_AGPL_HEADER @ r)" using old_in_new_tail [of r] by blast
    then show "str_in OLD_MIT_HEADER (p @ NEW_AGPL_HEADER @ r)" by (rule str_in_behind)
  next
    assume s: "str_in OLD_MIT_HEADER (p @ NEW_AGPL_HEADER @ r)"
    show "str_in OLD_MIT_HEADER (CHR ''/'' # r)"
    proof (rule ccontr)
      assume "\<not> str_in OLD_MIT_HEADER (CHR ''/'' # r)"
      then have "\<not> str_in OLD_MIT_HEADER (NEW_AGPL_HEADER @ r)" using old_in_new_tail [of r] by blast
      then have "\<not> str_in OLD_MIT_HEADER (CHR ''/'' # n @ r)" by (simp add: n)
      with assms have "\<not> str_in OLD_MIT_HEADER (p @ CHR ''/'' # n @ r)" by (rule old_not_spanning)
      with s show False by (simp add: n)
    qed
  qed
  then show "(process_content (p @ NEW_AGPL_HEADER @ r) = p @ NEW_AGPL_HEADER @ r)
          = (\<not> str_in OLD_MIT_HEADER (CHR ''/'' # r) \<and> \<not> no_copyright (p @ NEW_AGPL_HEADER @ r))"
    by (simp add: process_content_fixed process_outcome_def)
qed

text \<open>The new header of \<^verbatim>\<open>update-license-headers.py\<close> in front of a text.\<close>

lemma header_match:
  assumes "CHR ''\<newline>'' \<notin> set (takeWhile isspace c)"
  shows "match_at COPYRIGHT_PATTERN (NEW_HEADER @ ''\<newline>\<newline>'' @ c) = Some c"
proof -
  let ?body = "'' * Copyright (c) 2019-2025 Mark Sandford\<newline> * Licensed under the MIT License. See LICENSE and NOTICE files.\<newline> ''"
  have "match_at COPYRIGHT_PATTERN
          (''/**'' @ [] @ CHR ''\<newline>'' # ?body @ ''*/'' @ ''\<newline>'' @ CHR ''\<newline>'' # c) = Some c"
    using assms by (intro copyright_comment_match) (simp_all add: isspace_def)
  then show ?thesis by (simp add: NEW_HEADER_def)
qed

lemma header_no_agpl:
  "\<not> search AGPL_PATTERN c \<Longrightarrow> \<not> search AGPL_PATTERN (NEW_HEADER @ ''\<newline>\<newline>'' @ c)"
  by (simp add: NEW_HEADER_def AGPL_PATTERN_def lits_def isspace_def)

lemma header_fixed:
  assumes "\<not> search AGPL_PATTERN c" and "\<not> search COPYRIGHT_PATTERN c"
    and "CHR ''\<newline>'' \<notin> set (takeWhile isspace c)" and "CHR ''/'' \<notin> set pre"
  shows "update_content (pre @ NEW_HEADER @ ''\<newline>\<newline>'' @ c) = pre @ NEW_HEADER @ ''\<newline>\<newline>'' @ c"
proof -
  let ?s = "NEW_HEADER @ ''\<newline>\<newline>'' @ c"
  have a: "\<not> search AGPL_PATTERN (pre @ ?s)"
    using header_no_agpl [OF assms(1)] search_skip_slash [OF _ assms(4), of AGPL_PATTERN ?s] by simp
  have m: "match_at COPYRIGHT_PATTERN ?s = Some c"
    using assms(3) by (rule header_match)
  then have b: "search COPYRIGHT_PATTERN (pre @ ?s)"
    using search_appendI [OF search_match, of COPYRIGHT_PATTERN ?s pre] by simp
  have "sub COPYRIGHT_PATTERN (NEW_HEADER @ ''\<newline>\<newline>'') (pre @ ?s)
      = pre @ (NEW_HEADER @ ''\<newline>\<newline>'') @ sub COPYRIGHT_PATTERN (NEW_HEADER @ ''\<newline>\<newline>'') c"
    using assms(4) m by (intro sub_at_match) auto
  also have "\<dots> = pre @ ?s"
    using sub_no_match [OF assms(2)] by simp
  finally show ?thesis using a b by (simp only: update_content_def if_True if_False)
qed

lemma search_suffix: "\<not> search p (pre @ s) \<Longrightarrow> \<not> search p s"
  using search_appendI by blast

text \<open>Both patterns end in \<^verbatim>\<open>\s*\n\<close>, so the text after a match holds no newline in
  its leading whitespace.\<close>

lemma match_at_append_D: "match_at (p @ q) s = Some r \<Longrightarrow> \<exists>v. match_at q v = Some r"
proof (induction p arbitrary: s)
  case Nil
  then show ?case by auto
next
  case (Cons i p)
  have "\<exists>s'. match_at (p @ q) s' = Some r"
  proof (cases i)
    case (One a)
    with Cons.prems match_One_D [of a "p @ q" s r] show ?thesis by auto
  next
    case (Opt a)
    with Cons.prems match_Opt_D [of a "p @ q" s r] show ?thesis by auto
  next
    case (Star a)
    with Cons.prems match_Star_D [of a "p @ q" s r] show ?thesis by auto
  next
    case (Lazy a)
    with Cons.prems match_Lazy_D [of a "p @ q" s r] show ?thesis by auto
  qed
  with Cons.IH show ?case by blast
qed

lemma pattern_tails:
  assumes "P = AGPL_PATTERN \<or> P = COPYRIGHT_PATTERN"
  shows "\<exists>q. P = q @ [Star Space, One (Lit CHR ''\<newline>'')]"
  using assms
proof
  assume "P = AGPL_PATTERN"
  then show ?thesis
    by (intro exI [of _ "butlast (butlast AGPL_PATTERN)"]) (simp add: AGPL_PATTERN_def lits_def)
next
  assume "P = COPYRIGHT_PATTERN"
  then show ?thesis
    by (intro exI [of _ "butlast (butlast COPYRIGHT_PATTERN)"])
       (simp add: COPYRIGHT_PATTERN_def lits_def)
qed

lemma match_rest_blank:
  assumes "P = AGPL_PATTERN \<or> P = COPYRIGHT_PATTERN" and "match_at P s = Some r"
  shows "CHR ''\<newline>'' \<notin> set (takeWhile isspace r)"
proof -
  from pattern_tails [OF assms(1)] obtain q where "P = q @ [Star Space, One (Lit CHR ''\<newline>'')]"
    by blast
  with assms(2) obtain v where "match_at [Star Space, One (Lit CHR ''\<newline>'')] v = Some r"
    by (auto dest: match_at_append_D)
  then show ?thesis by (rule blanks_left)
qed

lemma replaced_once_fixed:
  assumes "P = AGPL_PATTERN \<or> P = COPYRIGHT_PATTERN" and "match_at P s = Some rest"
    and "CHR ''/'' \<notin> set pre"
    and "\<not> search AGPL_PATTERN rest" and "\<not> search COPYRIGHT_PATTERN rest"
  shows "sub P (NEW_HEADER @ ''\<newline>\<newline>'') (pre @ s) = pre @ NEW_HEADER @ ''\<newline>\<newline>'' @ rest"
    and "update_content (pre @ NEW_HEADER @ ''\<newline>\<newline>'' @ rest) = pre @ NEW_HEADER @ ''\<newline>\<newline>'' @ rest"
proof -
  have "sub P (NEW_HEADER @ ''\<newline>\<newline>'') rest = rest"
    using assms(1,4,5) by (auto intro: sub_no_match)
  then show "sub P (NEW_HEADER @ ''\<newline>\<newline>'') (pre @ s) = pre @ NEW_HEADER @ ''\<newline>\<newline>'' @ rest"
    using sub_at_match [OF assms(1,3,2), of "NEW_HEADER @ ''\<newline>\<newline>''"] by simp
  show "update_content (pre @ NEW_HEADER @ ''\<newline>\<newline>'' @ rest) = pre @ NEW_HEADER @ ''\<newline>\<newline>'' @ rest"
    using assms(4,5) match_rest_blank [OF assms(1,2)] assms(3) by (rule header_fixed)
qed

text \<open>
  Claim C1, as amended. A second application of the transformation changes nothing in
  the following cases. \<^verbatim>\<open>process_file\<close>: on every content that does not hold the old
  header text; and on a content that holds it, exactly when, the first occurrence
  replaced, no old header text is left (none in the text after the occurrence, also not
  one that begins with the last character of the new header) and a copyright word lies
  in the first 1000 characters of the output, as it does whenever the occurrence starts
  within the first 951 characters. \<^verbatim>\<open>update_file\<close>: on every content on which neither
  pattern matches and whose leading whitespace holds no newline, when it does not start
  with \<^verbatim>\<open>'use client'\<close>; on every such content whose first line starts with
  \<^verbatim>\<open>'use client'\<close> and holds no slash, when the leading whitespace of the text after
  that line holds no newline; and on every content in which one match of the pattern in
  use stands behind a text without a slash and before a text on which neither pattern
  matches.
\<close>

theorem second_run_stable:
  "(\<not> str_in OLD_MIT_HEADER c \<longrightarrow> process_content (process_content c) = process_content c)
   \<and> (\<not> str_in OLD_MIT_HEADER (p @ butlast OLD_MIT_HEADER) \<longrightarrow>
        process_content (p @ OLD_MIT_HEADER @ r) = p @ NEW_AGPL_HEADER @ r
        \<and> (process_content (process_content (p @ OLD_MIT_HEADER @ r))
              = process_content (p @ OLD_MIT_HEADER @ r))
           = (\<not> str_in OLD_MIT_HEADER (CHR ''/'' # r) \<and> \<not> no_copyright (p @ NEW_AGPL_HEADER @ r)))
   \<and> (length p \<le> 951 \<longrightarrow> \<not> no_copyright (p @ NEW_AGPL_HEADER @ r))
   \<and> (\<not> search AGPL_PATTERN c \<and> \<not> search COPYRIGHT_PATTERN c \<and> \<not> prefix use_client c
        \<and> CHR ''\<newline>'' \<notin> set (takeWhile isspace c)
      \<longrightarrow> update_content (update_content c) = update_content c)
   \<and> (\<not> search AGPL_PATTERN (l0 @ CHR ''\<newline>'' # t) \<and> \<not> search COPYRIGHT_PATTERN (l0 @ CHR ''\<newline>'' # t)
        \<and> prefix use_client l0 \<and> CHR ''\<newline>'' \<notin> set l0 \<and> CHR ''/'' \<notin> set l0
        \<and> CHR ''\<newline>'' \<notin> set (takeWhile isspace t)
      \<longrightarrow> update_content (update_content (l0 @ CHR ''\<newline>'' # t)) = update_content (l0 @ CHR ''\<newline>'' # t))
   \<and> (CHR ''/'' \<notin> set pre \<and> \<not> search AGPL_PATTERN rest \<and> \<not> search COPYRIGHT_PATTERN rest
        \<and> (match_at AGPL_PATTERN s = Some rest
             \<or> \<not> search AGPL_PATTERN (pre @ s) \<and> match_at COPYRIGHT_PATTERN s = Some rest)
      \<longrightarrow> update_content (pre @ s) = pre @ NEW_HEADER @ ''\<newline>\<newline>'' @ rest
          \<and> update_content (update_content (pre @ s)) = update_content (pre @ s))"
proof -
  have 1: "\<not> str_in OLD_MIT_HEADER c \<longrightarrow> process_content (process_content c) = process_content c"
    by (simp add: process_content_stable)
  have 2: "\<not> str_in OLD_MIT_HEADER (p @ butlast OLD_MIT_HEADER) \<longrightarrow>
        process_content (p @ OLD_MIT_HEADER @ r) = p @ NEW_AGPL_HEADER @ r
        \<and> (process_content (process_content (p @ OLD_MIT_HEADER @ r))
              = process_content (p @ OLD_MIT_HEADER @ r))
           = (\<not> str_in OLD_MIT_HEADER (CHR ''/'' # r) \<and> \<not> no_copyright (p @ NEW_AGPL_HEADER @ r))"
    using process_content_replaced [of p r] by simp
  have 3: "length p \<le> 951 \<longrightarrow> \<not> no_copyright (p @ NEW_AGPL_HEADER @ r)"
    using copyright_in_replaced by blast
  have 4: "\<not> search AGPL_PATTERN c \<and> \<not> search COPYRIGHT_PATTERN c \<and> \<not> prefix use_client c
        \<and> CHR ''\<newline>'' \<notin> set (takeWhile isspace c)
      \<longrightarrow> update_content (update_content c) = update_content c"
  proof
    assume h: "\<not> search AGPL_PATTERN c \<and> \<not> search COPYRIGHT_PATTERN c \<and> \<not> prefix use_client c
        \<and> CHR ''\<newline>'' \<notin> set (takeWhile isspace c)"
    then have "update_content c = NEW_HEADER @ ''\<newline>\<newline>'' @ c"
      by (simp add: update_content_def)
    moreover have "update_content ([] @ NEW_HEADER @ ''\<newline>\<newline>'' @ c) = [] @ NEW_HEADER @ ''\<newline>\<newline>'' @ c"
      using h by (intro header_fixed) auto
    ultimately show "update_content (update_content c) = update_content c" by simp
  qed
  have 5: "\<not> search AGPL_PATTERN (l0 @ CHR ''\<newline>'' # t) \<and> \<not> search COPYRIGHT_PATTERN (l0 @ CHR ''\<newline>'' # t)
        \<and> prefix use_client l0 \<and> CHR ''\<newline>'' \<notin> set l0 \<and> CHR ''/'' \<notin> set l0
        \<and> CHR ''\<newline>'' \<notin> set (takeWhile isspace t)
      \<longrightarrow> update_content (update_content (l0 @ CHR ''\<newline>'' # t)) = update_content (l0 @ CHR ''\<newline>'' # t)"
  proof
    assume h: "\<not> search AGPL_PATTERN (l0 @ CHR ''\<newline>'' # t) \<and> \<not> search COPYRIGHT_PATTERN (l0 @ CHR ''\<newline>'' # t)
        \<and> prefix use_client l0 \<and> CHR ''\<newline>'' \<notin> set l0 \<and> CHR ''/'' \<notin> set l0
        \<and> CHR ''\<newline>'' \<notin> set (takeWhile isspace t)"
    then have p: "prefix use_client (l0 @ CHR ''\<newline>'' # t)" by (simp add: prefix_prefix)
    with h have u: "update_content (l0 @ CHR ''\<newline>'' # t) = (l0 @ ''\<newline>\<newline>'') @ NEW_HEADER @ ''\<newline>\<newline>'' @ t"
      by (simp add: update_content_def split_first_line_nl)
    have "\<not> search AGPL_PATTERN t" "\<not> search COPYRIGHT_PATTERN t"
      using h search_suffix [of AGPL_PATTERN "l0 @ ''\<newline>''" t]
        search_suffix [of COPYRIGHT_PATTERN "l0 @ ''\<newline>''" t]
      by simp_all
    moreover have "CHR ''/'' \<notin> set (l0 @ ''\<newline>\<newline>'')" using h by simp
    moreover have "CHR ''\<newline>'' \<notin> set (takeWhile isspace t)" using h by blast
    ultimately have "update_content ((l0 @ ''\<newline>\<newline>'') @ NEW_HEADER @ ''\<newline>\<newline>'' @ t)
        = (l0 @ ''\<newline>\<newline>'') @ NEW_HEADER @ ''\<newline>\<newline>'' @ t"
      by (intro header_fixed)
    with u show "update_content (update_content (l0 @ CHR ''\<newline>'' # t)) = update_content (l0 @ CHR ''\<newline>'' # t)"
      by simp
  qed
  have 6: "CHR ''/'' \<notin> set pre \<and> \<not> search AGPL_PATTERN rest \<and> \<not> search COPYRIGHT_PATTERN rest
        \<and> (match_at AGPL_PATTERN s = Some rest
             \<or> \<not> search AGPL_PATTERN (pre @ s) \<and> match_at COPYRIGHT_PATTERN s = Some rest)
      \<longrightarrow> update_content (pre @ s) = pre @ NEW_HEADER @ ''\<newline>\<newline>'' @ rest
          \<and> update_content (update_content (pre @ s)) = update_content (pre @ s)"
  proof
    assume h: "CHR ''/'' \<notin> set pre \<and> \<not> search AGPL_PATTERN rest \<and> \<not> search COPYRIGHT_PATTERN rest
        \<and> (match_at AGPL_PATTERN s = Some rest
             \<or> \<not> search AGPL_PATTERN (pre @ s) \<and> match_at COPYRIGHT_PATTERN s = Some rest)"
    then have g: "CHR ''/'' \<notin> set pre" "\<not> search AGPL_PATTERN rest" "\<not> search COPYRIGHT_PATTERN rest"
      by blast+
    from h have "match_at AGPL_PATTERN s = Some rest
        \<or> \<not> search AGPL_PATTERN (pre @ s) \<and> match_at COPYRIGHT_PATTERN s = Some rest"
      by blast
    then have "update_content (pre @ s) = pre @ NEW_HEADER @ ''\<newline>\<newline>'' @ rest
        \<and> update_content (pre @ NEW_HEADER @ ''\<newline>\<newline>'' @ rest) = pre @ NEW_HEADER @ ''\<newline>\<newline>'' @ rest"
    proof
      assume m: "match_at AGPL_PATTERN s = Some rest"
      then have "search AGPL_PATTERN (pre @ s)"
        using search_appendI [OF search_match, of AGPL_PATTERN s pre] by simp
      then have "update_content (pre @ s) = sub AGPL_PATTERN (NEW_HEADER @ ''\<newline>\<newline>'') (pre @ s)"
        by (simp only: update_content_def if_True)
      with replaced_once_fixed [where P = AGPL_PATTERN, OF _ m g] show ?thesis by simp
    next
      assume "\<not> search AGPL_PATTERN (pre @ s) \<and> match_at COPYRIGHT_PATTERN s = Some rest"
      then have n: "\<not> search AGPL_PATTERN (pre @ s)" and m: "match_at COPYRIGHT_PATTERN s = Some rest"
        by blast+
      from m have "search COPYRIGHT_PATTERN (pre @ s)"
        using search_appendI [OF search_match, of COPYRIGHT_PATTERN s pre] by simp
      with n have "update_content (pre @ s) = sub COPYRIGHT_PATTERN (NEW_HEADER @ ''\<newline>\<newline>'') (pre @ s)"
        by (simp only: update_content_def if_True if_False)
      with replaced_once_fixed [where P = COPYRIGHT_PATTERN, OF _ m g] show ?thesis by simp
    qed
    then show "update_content (pre @ s) = pre @ NEW_HEADER @ ''\<newline>\<newline>'' @ rest
          \<and> update_content (update_content (pre @ s)) = update_content (pre @ s)"
      by simp
  qed
  from 1 2 3 4 5 6 show ?thesis by blast
qed

theorem second_run_stable_witness:
  "\<not> str_in OLD_MIT_HEADER ''const x = 1;''
   \<and> process_content (process_content ''const x = 1;'') = process_content ''const x = 1;''
   \<and> \<not> str_in OLD_MIT_HEADER (''let a;\<newline>'' @ butlast OLD_MIT_HEADER)
   \<and> \<not> str_in OLD_MIT_HEADER (CHR ''/'' # ''\<newline>let b;'')
   \<and> length ''let a;\<newline>'' \<le> 951
   \<and> process_content (''let a;\<newline>'' @ OLD_MIT_HEADER @ ''\<newline>let b;'')
       = ''let a;\<newline>'' @ NEW_AGPL_HEADER @ ''\<newline>let b;''
   \<and> process_content (process_content (''let a;\<newline>'' @ OLD_MIT_HEADER @ ''\<newline>let b;''))
       = process_content (''let a;\<newline>'' @ OLD_MIT_HEADER @ ''\<newline>let b;'')
   \<and> \<not> search AGPL_PATTERN ''const x = 1;'' \<and> \<not> search COPYRIGHT_PATTERN ''const x = 1;''
   \<and> \<not> prefix use_client ''const x = 1;''
   \<and> CHR ''\<newline>'' \<notin> set (takeWhile isspace ''const x = 1;'')
   \<and> update_content (update_content ''const x = 1;'') = update_content ''const x = 1;''
   \<and> \<not> search AGPL_PATTERN (use_client @ CHR ''\<newline>'' # ''const x = 1;'')
   \<and> \<not> search COPYRIGHT_PATTERN (use_client @ CHR ''\<newline>'' # ''const x = 1;'')
   \<and> prefix use_client use_client \<and> CHR ''\<newline>'' \<notin> set use_client \<and> CHR ''/'' \<notin> set use_client
   \<and> update_content (update_content (use_client @ CHR ''\<newline>'' # ''const x = 1;''))
       = update_content (use_client @ CHR ''\<newline>'' # ''const x = 1;'')
   \<and> CHR ''/'' \<notin> set ''let a;\<newline>''
   \<and> \<not> search AGPL_PATTERN ''let b;'' \<and> \<not> search COPYRIGHT_PATTERN ''let b;''
   \<and> \<not> search AGPL_PATTERN (''let a;\<newline>'' @ ''/*\<newline> * Copyright me\<newline> */\<newline>let b;'')
   \<and> match_at COPYRIGHT_PATTERN ''/*\<newline> * Copyright me\<newline> */\<newline>let b;'' = Some ''let b;''
   \<and> update_content (''let a;\<newline>'' @ ''/*\<newline> * Copyright me\<newline> */\<newline>let b;'')
       = ''let a;\<newline>'' @ NEW_HEADER @ ''\<newline>\<newline>'' @ ''let b;''
   \<and> update_content (update_content (''let a;\<newline>'' @ ''/*\<newline> * Copyright me\<newline> */\<newline>let b;''))
       = update_content (''let a;\<newline>'' @ ''/*\<newline> * Copyright me\<newline> */\<newline>let b;'')"
proof -
  let ?c = "''const x = 1;''"
  let ?p = "''let a;\<newline>''"
  let ?r = "''\<newline>let b;''"
  let ?s = "''/*\<newline> * Copyright me\<newline> */\<newline>let b;''"
  note T = second_run_stable [of ?c ?p ?r use_client ?c ?p "''let b;''" ?s]
  have 1: "\<not> str_in OLD_MIT_HEADER ?c"
    by (simp add: OLD_MIT_HEADER_def)
  obtain w where w: "OLD_MIT_HEADER = CHR ''/'' # w"
    by (simp add: OLD_MIT_HEADER_def)
  have "str_in OLD_MIT_HEADER (?p @ butlast OLD_MIT_HEADER)
          = str_in OLD_MIT_HEADER (butlast OLD_MIT_HEADER)"
    unfolding w by (rule str_in_skip) simp
  then have 2: "\<not> str_in OLD_MIT_HEADER (?p @ butlast OLD_MIT_HEADER)"
    using not_str_in_butlast [OF OLD_MIT_HEADER_not_Nil] by simp
  have 3: "\<not> str_in OLD_MIT_HEADER (CHR ''/'' # ?r)"
    by (simp add: OLD_MIT_HEADER_def)
  have 4: "length ?p \<le> 951" by simp
  have 5: "\<not> search AGPL_PATTERN ?c \<and> \<not> search COPYRIGHT_PATTERN ?c \<and> \<not> prefix use_client ?c
           \<and> CHR ''\<newline>'' \<notin> set (takeWhile isspace ?c)"
    by (simp add: AGPL_PATTERN_def COPYRIGHT_PATTERN_def lits_def use_client_def isspace_def)
  have 6: "\<not> search AGPL_PATTERN (use_client @ CHR ''\<newline>'' # ?c)
           \<and> \<not> search COPYRIGHT_PATTERN (use_client @ CHR ''\<newline>'' # ?c)
           \<and> prefix use_client use_client \<and> CHR ''\<newline>'' \<notin> set use_client \<and> CHR ''/'' \<notin> set use_client
           \<and> CHR ''\<newline>'' \<notin> set (takeWhile isspace ?c)"
    by (simp add: AGPL_PATTERN_def COPYRIGHT_PATTERN_def lits_def use_client_def isspace_def)
  have 7: "CHR ''/'' \<notin> set ?p \<and> \<not> search AGPL_PATTERN ''let b;'' \<and> \<not> search COPYRIGHT_PATTERN ''let b;''"
    by (simp add: AGPL_PATTERN_def COPYRIGHT_PATTERN_def lits_def)
  have 8: "\<not> search AGPL_PATTERN (?p @ ?s)"
    by (simp add: AGPL_PATTERN_def lits_def isspace_def)
  have 9: "match_at COPYRIGHT_PATTERN ?s = Some ''let b;''"
    by (simp add: COPYRIGHT_PATTERN_def lits_def isspace_def)
  have a: "process_content (process_content ?c) = process_content ?c"
    by (rule mp [OF T [THEN conjunct1] 1])
  note b = mp [OF T [THEN conjunct2, THEN conjunct1] 2]
  have d: "\<not> no_copyright (?p @ NEW_AGPL_HEADER @ ?r)"
    by (rule mp [OF T [THEN conjunct2, THEN conjunct2, THEN conjunct1] 4])
  from b have b1: "process_content (?p @ OLD_MIT_HEADER @ ?r) = ?p @ NEW_AGPL_HEADER @ ?r"
    by (rule conjunct1)
  from b 3 d have b2: "process_content (process_content (?p @ OLD_MIT_HEADER @ ?r))
       = process_content (?p @ OLD_MIT_HEADER @ ?r)"
    by blast
  have e: "update_content (update_content ?c) = update_content ?c"
    by (rule mp [OF T [THEN conjunct2, THEN conjunct2, THEN conjunct2, THEN conjunct1] 5])
  have f: "update_content (update_content (use_client @ CHR ''\<newline>'' # ?c))
       = update_content (use_client @ CHR ''\<newline>'' # ?c)"
    by (rule mp [OF T [THEN conjunct2, THEN conjunct2, THEN conjunct2, THEN conjunct2, THEN conjunct1] 6])
  have hyp: "CHR ''/'' \<notin> set ?p \<and> \<not> search AGPL_PATTERN ''let b;'' \<and> \<not> search COPYRIGHT_PATTERN ''let b;''
        \<and> (match_at AGPL_PATTERN ?s = Some ''let b;''
             \<or> \<not> search AGPL_PATTERN (?p @ ?s) \<and> match_at COPYRIGHT_PATTERN ?s = Some ''let b;'')"
    using 7 8 9 by blast
  note g = mp [OF T [THEN conjunct2, THEN conjunct2, THEN conjunct2, THEN conjunct2, THEN conjunct2] hyp]
  note h5 = 5 [THEN conjunct1] 5 [THEN conjunct2, THEN conjunct1]
    5 [THEN conjunct2, THEN conjunct2, THEN conjunct1] 5 [THEN conjunct2, THEN conjunct2, THEN conjunct2]
  note h6 = 6 [THEN conjunct1] 6 [THEN conjunct2, THEN conjunct1]
    6 [THEN conjunct2, THEN conjunct2, THEN conjunct1]
    6 [THEN conjunct2, THEN conjunct2, THEN conjunct2, THEN conjunct1]
    6 [THEN conjunct2, THEN conjunct2, THEN conjunct2, THEN conjunct2, THEN conjunct1]
  note h7 = 7 [THEN conjunct1] 7 [THEN conjunct2, THEN conjunct1] 7 [THEN conjunct2, THEN conjunct2]
  show ?thesis
    by (intro conjI 1 2 3 4 h5 h6 h7 8 9 a b1 b2 e f g [THEN conjunct1] g [THEN conjunct2])
qed

text \<open>
  The claim as stated fails for both scripts. \<^verbatim>\<open>update_file\<close>: a content that starts
  with a newline gets the header and a blank line in front; on the second run the
  copyright pattern matches the new header together with all the blank lines after it
  and the substitution leaves one blank line. \<^verbatim>\<open>process_file\<close>: of two old headers the
  first run replaces the first and the second run the second.
\<close>

theorem idempotence_counterexample:
  "update_content ''\<newline>x'' = NEW_HEADER @ ''\<newline>\<newline>\<newline>x''
   \<and> update_content (update_content ''\<newline>x'') = NEW_HEADER @ ''\<newline>\<newline>x''
   \<and> update_content (update_content ''\<newline>x'') \<noteq> update_content ''\<newline>x''
   \<and> process_content (OLD_MIT_HEADER @ OLD_MIT_HEADER) = NEW_AGPL_HEADER @ OLD_MIT_HEADER
   \<and> process_content (process_content (OLD_MIT_HEADER @ OLD_MIT_HEADER)) = NEW_AGPL_HEADER @ NEW_AGPL_HEADER
   \<and> process_content (process_content (OLD_MIT_HEADER @ OLD_MIT_HEADER))
       \<noteq> process_content (OLD_MIT_HEADER @ OLD_MIT_HEADER)"
proof -
  have 1: "update_content ''\<newline>x'' = NEW_HEADER @ ''\<newline>\<newline>\<newline>x''"
    by (simp add: update_content_def AGPL_PATTERN_def COPYRIGHT_PATTERN_def lits_def use_client_def isspace_def)
  have 2: "update_content (NEW_HEADER @ ''\<newline>\<newline>\<newline>x'') = NEW_HEADER @ ''\<newline>\<newline>x''"
    by (simp add: update_content_def NEW_HEADER_def AGPL_PATTERN_def COPYRIGHT_PATTERN_def lits_def isspace_def)
  have 3: "process_content (OLD_MIT_HEADER @ OLD_MIT_HEADER) = NEW_AGPL_HEADER @ OLD_MIT_HEADER"
    using str_in_appendI [of OLD_MIT_HEADER "[]" OLD_MIT_HEADER]
    by (simp add: process_content_def replace_first_prefix OLD_MIT_HEADER_not_Nil)
  obtain w where w: "OLD_MIT_HEADER = CHR ''/'' # CHR ''*'' # CHR ''*'' # w"
    using OLD_MIT_HEADER_head by blast
  have "butlast OLD_MIT_HEADER = CHR ''/'' # butlast (CHR ''*'' # CHR ''*'' # w)"
    unfolding w by simp
  then have "\<not> str_in OLD_MIT_HEADER (NEW_AGPL_HEADER @ butlast OLD_MIT_HEADER)"
    using not_str_in_butlast [OF OLD_MIT_HEADER_not_Nil] old_not_in_new_slash [of w "butlast (CHR ''*'' # CHR ''*'' # w)"]
    by (simp add: w)
  then have 4: "process_content (NEW_AGPL_HEADER @ OLD_MIT_HEADER) = NEW_AGPL_HEADER @ NEW_AGPL_HEADER"
    using replace_first_at [OF OLD_MIT_HEADER_not_Nil, of NEW_AGPL_HEADER NEW_AGPL_HEADER "[]"]
      str_in_appendI [of OLD_MIT_HEADER NEW_AGPL_HEADER "[]"]
    by (simp add: process_content_def)
  have 5: "NEW_AGPL_HEADER \<noteq> OLD_MIT_HEADER"
    using length_headers by auto
  from 1 2 3 4 5 show ?thesis by simp
qed


end
